theory Spec2Isabelle
  imports Complex_Main "HOL-Library.Word" "HOL-Library.Multiset"
begin

section \<open>Command-T matcher: a shallow embedding of matcher.c\<close>

text \<open>
  The embedding follows \<^verbatim>\<open>vim/bundle/command-t/ruby/command-t/matcher.c\<close> as it is
  compiled with \<^verbatim>\<open>HAVE_PTHREAD_H\<close> defined (the build in which worker threads exist).
  Ruby strings are byte strings (\<^typ>\<open>string\<close>), scores are the \<^verbatim>\<open>double\<close> values of
  \<^verbatim>\<open>match_t\<close>, read as reals (no NaN), and \<^verbatim>\<open>long\<close> is 64 bits wide.
\<close>

subsection \<open>match_t and the two comparators\<close>

record match_t =
  path :: string
  score :: real

text \<open>
  The byte the C library reads at the head of a string. A Ruby string's buffer ends in a
  NUL byte, which is what is read at the end of the contents.
\<close>

definition byte_at :: "string \<Rightarrow> nat" where
  "byte_at s = (case s of [] \<Rightarrow> 0 | c # _ \<Rightarrow> of_char c)"

text \<open>
  \<^verbatim>\<open>strncmp\<close> of the C library: at most \<open>n\<close> bytes are compared as unsigned chars, and
  bytes after a NUL byte are not compared. The C standard fixes only the sign of a
  non-zero result; the model returns that sign.
\<close>

fun strncmp :: "string \<Rightarrow> string \<Rightarrow> nat \<Rightarrow> int" where
  "strncmp s1 s2 0 = 0"
| "strncmp s1 s2 (Suc n) =
     (if byte_at s1 \<noteq> byte_at s2 then (if byte_at s1 < byte_at s2 then - 1 else 1)
      else if byte_at s1 = 0 then 0
      else strncmp (tl s1) (tl s2) n)"

text \<open>\<^verbatim>\<open>cmp_alpha\<close>, lines 17-42.\<close>

definition cmp_alpha :: "match_t \<Rightarrow> match_t \<Rightarrow> int" where
  "cmp_alpha a_match b_match =
     (let a_p = path a_match; a_len = length a_p;
          b_p = path b_match; b_len = length b_p
      in if a_len > b_len then
           (let order = strncmp a_p b_p b_len in if order = 0 then 1 else order)
         else if a_len < b_len then
           (let order = strncmp a_p b_p a_len in if order = 0 then - 1 else order)
         else strncmp a_p b_p a_len)"

text \<open>\<^verbatim>\<open>cmp_score\<close>, lines 45-56.\<close>

definition cmp_score :: "match_t \<Rightarrow> match_t \<Rightarrow> int" where
  "cmp_score a_match b_match =
     (if score a_match > score b_match then - 1
      else if score a_match < score b_match then 1
      else cmp_alpha a_match b_match)"

subsection \<open>Construction\<close>

datatype error =
    ArgError            \<comment> \<open>\<^verbatim>\<open>rb_eArgError\<close>\<close>
  | NoMemError          \<comment> \<open>\<^verbatim>\<open>rb_eNoMemError\<close>\<close>
  | SystemCallError     \<comment> \<open>\<^verbatim>\<open>rb_eSystemCallError\<close>\<close>
  | Undefined_behaviour \<comment> \<open>no exception: the C code leaves what happens open\<close>

text \<open>
  The matcher object with its three instance variables. The scanner is kept as the array
  its \<^verbatim>\<open>paths\<close> method returns; the two flags are true when the stored value is
  \<^verbatim>\<open>Qtrue\<close>.
\<close>

record matcher =
  iv_scanner :: "string list"
  iv_always_show_dot_files :: bool
  iv_never_show_dot_files :: bool

text \<open>
  The options hash of the constructor, after \<^verbatim>\<open>CommandT_option_from_hash\<close>; an absent hash
  or key reads as nil, that is \<open>False\<close>.
\<close>

record init_options =
  opt_always_show_dot_files :: bool
  opt_never_show_dot_files :: bool

text \<open>\<^verbatim>\<open>CommandTMatcher_initialize\<close>, lines 58-81; a nil scanner is \<open>None\<close>.\<close>

definition initialize :: "string list option \<Rightarrow> init_options \<Rightarrow> error + matcher" where
  "initialize scanner options =
     (case scanner of
        None \<Rightarrow> Inl ArgError
      | Some sc \<Rightarrow>
          Inr \<lparr>iv_scanner = sc,
               iv_always_show_dot_files = opt_always_show_dot_files options,
               iv_never_show_dot_files = opt_never_show_dot_files options\<rparr>)"

subsection \<open>The scorer and the workers\<close>

text \<open>
  The score of a candidate: path, abbreviation, case sensitivity, always-show-dot-files,
  never-show-dot-files, recurse. The scoring code (\<^verbatim>\<open>match.c\<close>) is not part of the
  sources at hand, so the score function is a parameter of the model.
\<close>

type_synonym scorer = "string \<Rightarrow> string \<Rightarrow> bool \<Rightarrow> bool \<Rightarrow> bool \<Rightarrow> bool \<Rightarrow> real"

text \<open>
  Modelled from the spec: \<^verbatim>\<open>calculate_match\<close> of \<^verbatim>\<open>match.c\<close>, which is missing from the
  sources. The spec's ScoredMatch "pairs one Candidate with a real-valued Score", the score
  being a function of candidate, pattern and flags only.
\<close>

definition calculate_match ::
  "scorer \<Rightarrow> string \<Rightarrow> string \<Rightarrow> bool \<Rightarrow> bool \<Rightarrow> bool \<Rightarrow> bool \<Rightarrow> match_t" where
  "calculate_match sc str abbr cs always never rec =
     \<lparr>path = str, score = sc str abbr cs always never rec\<rparr>"

text \<open>
  \<^verbatim>\<open>thread_args_t\<close>, lines 83-94. The shared array \<^verbatim>\<open>matches\<close> is part of the workers'
  state below. Counts and indices are natural numbers: the code creates workers only for
  a positive \<^verbatim>\<open>thread_count\<close>, of a size that the \<^verbatim>\<open>int\<close> fields hold.
\<close>

record thread_args_t =
  thread_count :: nat
  thread_index :: nat
  case_sensitive :: bool
  path_count :: nat
  paths :: "string list"
  abbrev :: string
  always_show_dot_files :: bool
  never_show_dot_files :: bool
  recurse :: bool

text \<open>Lines 184-193: the arguments of worker \<open>i\<close>.\<close>

definition make_thread_args ::
  "nat \<Rightarrow> bool \<Rightarrow> nat \<Rightarrow> string list \<Rightarrow> string \<Rightarrow> bool \<Rightarrow> bool \<Rightarrow> bool \<Rightarrow> nat \<Rightarrow> thread_args_t" where
  "make_thread_args T cs n ps abbr always never rec i =
     \<lparr>thread_count = T, thread_index = i, case_sensitive = cs, path_count = n, paths = ps,
      abbrev = abbr, always_show_dot_files = always, never_show_dot_files = never,
      recurse = rec\<rparr>"

text \<open>
  The state the workers share: the array \<^verbatim>\<open>matches\<close> (\<open>None\<close> for a slot that
  \<^verbatim>\<open>malloc\<close> returned and nobody has written), the loop variable \<^verbatim>\<open>i\<close> of each worker,
  and the record of the calls of \<^verbatim>\<open>calculate_match\<close> made so far, as pairs of worker
  and array index.
\<close>

record workers =
  matches :: "match_t option list"
  next_index :: "nat list"
  calls :: "(nat \<times> nat) list"

text \<open>
  The state when the loop of line 183 starts: the block \<^verbatim>\<open>malloc\<close> returned for
  \<^verbatim>\<open>matches\<close>, and every worker at its \<^verbatim>\<open>thread_index\<close>.
\<close>

definition initial_workers :: "(nat \<Rightarrow> thread_args_t) \<Rightarrow> nat \<Rightarrow> nat \<Rightarrow> workers" where
  "initial_workers thread_args T n =
     \<lparr>matches = replicate n None,
      next_index = map (\<lambda>i. thread_index (thread_args i)) [0..<T],
      calls = []\<rparr>"

text \<open>
  One turn of the loop of \<^verbatim>\<open>match_thread\<close> (lines 100-109) for worker \<open>k\<close>: the loop test,
  the call writing \<^verbatim>\<open>matches[i]\<close>, and the increment by \<^verbatim>\<open>thread_count\<close>. A worker whose
  loop has ended stays as it is.
\<close>

definition match_thread_step ::
  "scorer \<Rightarrow> (nat \<Rightarrow> thread_args_t) \<Rightarrow> nat \<Rightarrow> workers \<Rightarrow> workers" where
  "match_thread_step sc thread_args k w =
     (if k < length (next_index w) then
        (let args = thread_args k; i = next_index w ! k
         in if i < path_count args then
              w\<lparr>matches := (matches w)[i := Some (calculate_match sc (paths args ! i)
                    (abbrev args) (case_sensitive args) (always_show_dot_files args)
                    (never_show_dot_files args) (recurse args))],
                next_index := (next_index w)[k := i + thread_count args],
                calls := calls w @ [(k, i)]\<rparr>
            else w)
      else w)"

text \<open>
  \<^verbatim>\<open>match_thread\<close> run to its end from the worker's current position. The loop variable
  grows by \<^verbatim>\<open>thread_count\<close>, at least one, on every turn, so \<^verbatim>\<open>path_count\<close> turns are
  enough (lemma \<open>match_thread_finished\<close>).
\<close>

definition match_thread ::
  "scorer \<Rightarrow> (nat \<Rightarrow> thread_args_t) \<Rightarrow> nat \<Rightarrow> workers \<Rightarrow> workers" where
  "match_thread sc thread_args k w =
     ((match_thread_step sc thread_args k) ^^ (path_count (thread_args k))) w"

text \<open>
  The workers of one call, lines 183-214. The threads take turns as the schedule says, one
  turn of the loop at a time, in any order (a number that names no worker is skipped). Then
  the call of \<^verbatim>\<open>match_thread\<close> on the main thread for the last worker returns, and
  \<^verbatim>\<open>pthread_join\<close> waits for each of the others in turn. Every interleaving of the
  workers' writes is the run of some schedule.
\<close>

definition run_workers ::
  "scorer \<Rightarrow> (nat \<Rightarrow> thread_args_t) \<Rightarrow> nat \<Rightarrow> nat list \<Rightarrow> workers \<Rightarrow> workers" where
  "run_workers sc thread_args T schedule w =
     (let w1 = foldl (\<lambda>w k. match_thread_step sc thread_args k w) w schedule;
          w2 = match_thread sc thread_args (T - 1) w1
      in foldl (\<lambda>w k. match_thread sc thread_args k w) w2 [0..<T - 1])"

subsection \<open>The ranking call\<close>

text \<open>
  The options hash of the call after \<^verbatim>\<open>CommandT_option_from_hash\<close>: a flag is true when
  its value is \<^verbatim>\<open>Qtrue\<close>; \<^verbatim>\<open>limit\<close> and \<^verbatim>\<open>threads\<close> are nil or the \<^verbatim>\<open>long\<close> that
  \<^verbatim>\<open>NUM2LONG\<close> delivers; \<^verbatim>\<open>sort\<close> is nil, \<^verbatim>\<open>Qtrue\<close> or something else
  (\<open>Some False\<close>).
\<close>

record options =
  opt_case_sensitive :: bool
  opt_limit :: "64 word option"
  opt_threads :: "64 word option"
  opt_sort :: "bool option"
  opt_ignore_spaces :: bool
  opt_recurse :: bool

text \<open>Ruby's \<^verbatim>\<open>String#downcase\<close> on the ASCII letters, and \<^verbatim>\<open>String#delete(" ")\<close>.\<close>

definition downcase :: "string \<Rightarrow> string" where
  "downcase s =
     map (\<lambda>c. if (65::nat) \<le> of_char c \<and> of_char c \<le> (90::nat)
              then char_of (of_char c + (32::nat)) else c) s"

definition delete_spaces :: "string \<Rightarrow> string" where
  "delete_spaces s = filter (\<lambda>c. c \<noteq> CHR '' '') s"

text \<open>Lines 151-156: the abbreviation as the workers and the sort see it.\<close>

definition normalize_abbrev :: "options \<Rightarrow> string \<Rightarrow> string" where
  "normalize_abbrev opts abbr =
     (let abbr = (if \<not> opt_case_sensitive opts then downcase abbr else abbr)
      in if opt_ignore_spaces opts then delete_spaces abbr else abbr)"

text \<open>
  What the call meets outside its own code: whether each \<^verbatim>\<open>malloc\<close> returns a block, the
  error code of each \<^verbatim>\<open>pthread_create\<close> and \<^verbatim>\<open>pthread_join\<close>, and the order in which the
  threads take their turns.
\<close>

record env =
  malloc_matches :: bool
  malloc_threads :: bool
  malloc_thread_args :: bool
  pthread_create_err :: "nat \<Rightarrow> int"
  pthread_join_err :: "nat \<Rightarrow> int"
  schedule :: "nat list"

text \<open>
  What a call does besides computing its result, in the order of the code. The thread
  creations are listed before the workers' calls of \<^verbatim>\<open>calculate_match\<close>; how the two
  overlap in time is not recorded.
\<close>

datatype event =
    Fetch_paths
  | Alloc_matches
  | Alloc_threads
  | Alloc_thread_args
  | Thread_create nat
  | Calculate_match nat nat
  | Thread_join nat

definition INT_MAX :: int where
  "INT_MAX = 2147483647"

text \<open>Lines 169-174, with \<^verbatim>\<open>THREAD_THRESHOLD\<close> 1000.\<close>

definition THREAD_THRESHOLD :: nat where
  "THREAD_THRESHOLD = 1000"

definition effective_thread_count :: "nat \<Rightarrow> 64 word option \<Rightarrow> int" where
  "effective_thread_count npaths threads_option =
     (let requested = (case threads_option of None \<Rightarrow> 1 | Some t \<Rightarrow> sint t)
      in if npaths < THREAD_THRESHOLD then 1 else requested)"

text \<open>
  \<^verbatim>\<open>qsort\<close> of the C library, a parameter of the model: it takes the comparison function and
  the array and returns the array as it is afterwards.
\<close>

type_synonym qsort_fn = "(match_t \<Rightarrow> match_t \<Rightarrow> int) \<Rightarrow> match_t list \<Rightarrow> match_t list"

text \<open>Lines 218-226.\<close>

definition sort_matches :: "qsort_fn \<Rightarrow> bool option \<Rightarrow> string \<Rightarrow> match_t list \<Rightarrow> match_t list" where
  "sort_matches qsort sort_option abbr ms =
     (if sort_option = None \<or> sort_option = Some True then
        (if length abbr = 0 \<or> (length abbr = 1 \<and> abbr ! 0 = CHR ''.'')
         then qsort cmp_alpha ms
         else qsort cmp_score ms)
      else ms)"

text \<open>
  The loop of lines 233-238 from position \<^verbatim>\<open>i\<close> on: the entries of \<^verbatim>\<open>matches\<close> still to be
  visited, the current \<^verbatim>\<open>limit\<close>, and the results pushed so far.
\<close>

fun collect :: "match_t list \<Rightarrow> int \<Rightarrow> string list \<Rightarrow> string list" where
  "collect [] limit results = results"
| "collect (m # ms) limit results =
     (if limit > 0 then
        (if score m > 0 then collect ms (limit - 1) (results @ [path m])
         else collect ms limit results)
      else results)"

text \<open>Lines 228-232 and the loop.\<close>

definition collect_results :: "64 word option \<Rightarrow> match_t list \<Rightarrow> string list" where
  "collect_results limit_option ms =
     (let limit = (case limit_option of None \<Rightarrow> 0 | Some l \<Rightarrow> sint l);
          limit = (if limit = 0 then int (length ms) else limit)
      in collect ms limit [])"

text \<open>The first index below \<open>n\<close> at which a thread call reports an error.\<close>

definition first_error :: "(nat \<Rightarrow> int) \<Rightarrow> nat \<Rightarrow> nat option" where
  "first_error err n = find (\<lambda>i. err i \<noteq> 0) [0..<n]"

text \<open>
  \<^verbatim>\<open>CommandTMatcher_sorted_matches_for\<close>, lines 114-242. A nil abbreviation is \<open>None\<close>.
  The result is the trace of the call and either the error raised or the array returned.
  Two situations end in \<open>Undefined_behaviour\<close>: a \<^verbatim>\<open>thread_count\<close> beyond \<^verbatim>\<open>INT_MAX\<close>,
  which the \<^verbatim>\<open>int\<close> fields of \<^verbatim>\<open>thread_args_t\<close> do not hold (lines 184-185), and a slot
  of \<^verbatim>\<open>matches\<close> that is read after no worker has written it, as happens when
  \<^verbatim>\<open>thread_count\<close> is zero or negative and the loop of line 183 starts no worker.
\<close>

definition sorted_matches_for ::
  "qsort_fn \<Rightarrow> scorer \<Rightarrow> env \<Rightarrow> matcher \<Rightarrow> string option \<Rightarrow> options \<Rightarrow>
     event list \<times> (error + string list)" where
  "sorted_matches_for qsort sc e self abbrev_arg opts =
     (case abbrev_arg of
        None \<Rightarrow> ([], Inl ArgError)
      | Some abbr0 \<Rightarrow>
          let abbr = normalize_abbrev opts abbr0;
              ps = iv_scanner self;
              n = length ps
          in if \<not> malloc_matches e then ([Fetch_paths], Inl NoMemError)
          else
            let thread_count = effective_thread_count n (opt_threads opts);
                T = nat thread_count
            in if \<not> malloc_threads e then ([Fetch_paths, Alloc_matches], Inl NoMemError)
            else if \<not> malloc_thread_args e then
              ([Fetch_paths, Alloc_matches, Alloc_threads], Inl NoMemError)
            else if INT_MAX < thread_count then
              ([Fetch_paths, Alloc_matches, Alloc_threads, Alloc_thread_args],
               Inl Undefined_behaviour)
            else
              let allocs = [Fetch_paths, Alloc_matches, Alloc_threads, Alloc_thread_args];
                  thread_args = make_thread_args T (opt_case_sensitive opts) n ps abbr
                      (iv_always_show_dot_files self) (iv_never_show_dot_files self)
                      (opt_recurse opts)
              in (case first_error (pthread_create_err e) (T - 1) of
                   Some k \<Rightarrow> (allocs @ map Thread_create [0..<k], Inl SystemCallError)
                 | None \<Rightarrow>
                    (let w = run_workers sc thread_args T (schedule e)
                               (initial_workers thread_args T n);
                         work = allocs @ map Thread_create [0..<T - 1]
                                  @ map (\<lambda>(k, i). Calculate_match k i) (calls w)
                     in (case first_error (pthread_join_err e) (T - 1) of
                           Some k \<Rightarrow> (work @ map Thread_join [0..<k], Inl SystemCallError)
                         | None \<Rightarrow>
                             (work @ map Thread_join [0..<T - 1],
                              (case those (matches w) of
                                 None \<Rightarrow> Inl Undefined_behaviour
                               | Some ms \<Rightarrow>
                                   Inr (collect_results (opt_limit opts)
                                          (sort_matches qsort (opt_sort opts) abbr ms))))))))"

subsection \<open>Notions used in the statements\<close>

text \<open>\<^verbatim>\<open>cmp_alpha\<close> on the two byte strings.\<close>

definition cmp_len :: "string \<Rightarrow> string \<Rightarrow> int" where
  "cmp_len p q =
     (if length p > length q then
        (if strncmp p q (length q) = 0 then 1 else strncmp p q (length q))
      else if length p < length q then
        (if strncmp p q (length p) = 0 then - 1 else strncmp p q (length p))
      else strncmp p q (length p))"

text \<open>
  The order \<^verbatim>\<open>cmp_alpha\<close> computes, by recursion on the two strings: the first
  differing byte decides, a string that ends first comes first, and from a NUL byte shared
  by both strings on only the lengths are compared.
\<close>

fun alpha_ord :: "string \<Rightarrow> string \<Rightarrow> int" where
  "alpha_ord [] [] = 0"
| "alpha_ord [] (y # ys) = - 1"
| "alpha_ord (x # xs) [] = 1"
| "alpha_ord (x # xs) (y # ys) =
     (if (of_char x :: nat) \<noteq> of_char y then (if (of_char x :: nat) < of_char y then - 1 else 1)
      else if (of_char x :: nat) = 0 then
        (if length xs > length ys then 1 else if length xs < length ys then - 1 else 0)
      else alpha_ord xs ys)"

text \<open>The part of a byte string that C string functions see: up to the first NUL byte.\<close>

definition c_str :: "string \<Rightarrow> string" where
  "c_str s = takeWhile (\<lambda>c. (of_char c :: nat) \<noteq> 0) s"

text \<open>
  What \<^verbatim>\<open>qsort\<close> asks of its comparison function, and what it promises in return: the
  array afterwards holds the same elements, in ascending order of the comparison.
\<close>

definition consistent_cmp :: "(match_t \<Rightarrow> match_t \<Rightarrow> int) \<Rightarrow> bool" where
  "consistent_cmp cmp \<longleftrightarrow>
     (\<forall>a b. sgn (cmp a b) = - sgn (cmp b a)) \<and>
     (\<forall>a b c. cmp a b \<le> 0 \<longrightarrow> cmp b c \<le> 0 \<longrightarrow> cmp a c \<le> 0)"

definition qsort_contract :: "qsort_fn \<Rightarrow> bool" where
  "qsort_contract qsort \<longleftrightarrow>
     (\<forall>cmp ms. consistent_cmp cmp \<longrightarrow>
        mset (qsort cmp ms) = mset ms \<and> sorted_wrt (\<lambda>a b. cmp a b \<le> 0) (qsort cmp ms))"

text \<open>One sorting function that keeps the contract: insertion sort.\<close>

fun insert_by :: "(match_t \<Rightarrow> match_t \<Rightarrow> int) \<Rightarrow> match_t \<Rightarrow> match_t list \<Rightarrow> match_t list" where
  "insert_by cmp m [] = [m]"
| "insert_by cmp m (x # xs) = (if cmp m x \<le> 0 then m # x # xs else x # insert_by cmp m xs)"

definition insertion_sort :: qsort_fn where
  "insertion_sort cmp ms = foldr (insert_by cmp) ms []"

text \<open>A call in which every \<^verbatim>\<open>malloc\<close>, \<^verbatim>\<open>pthread_create\<close> and \<^verbatim>\<open>pthread_join\<close> succeeds.\<close>

definition env_ok :: "env \<Rightarrow> bool" where
  "env_ok e \<longleftrightarrow>
     malloc_matches e \<and> malloc_threads e \<and> malloc_thread_args e \<and>
     (\<forall>k. pthread_create_err e k = 0) \<and> (\<forall>k. pthread_join_err e k = 0)"

text \<open>The entry of \<^verbatim>\<open>matches\<close> that the scorer gives for a candidate in a call.\<close>

definition scored :: "scorer \<Rightarrow> matcher \<Rightarrow> options \<Rightarrow> string \<Rightarrow> string \<Rightarrow> match_t" where
  "scored sc self opts abbr0 p =
     calculate_match sc p (normalize_abbrev opts abbr0) (opt_case_sensitive opts)
       (iv_always_show_dot_files self) (iv_never_show_dot_files self) (opt_recurse opts)"

text \<open>The threads a trace shows as created, and the workers it shows calling the scorer.\<close>

fun created_threads :: "event list \<Rightarrow> nat list" where
  "created_threads [] = []"
| "created_threads (Thread_create k # evs) = k # created_threads evs"
| "created_threads (ev # evs) = created_threads evs"

fun scoring_calls :: "event list \<Rightarrow> (nat \<times> nat) list" where
  "scoring_calls [] = []"
| "scoring_calls (Calculate_match k i # evs) = (k, i) # scoring_calls evs"
| "scoring_calls (ev # evs) = scoring_calls evs"

text \<open>The value a worker writes at index \<open>i\<close>, and the invariant of the workers' state.\<close>

definition entry_of :: "scorer \<Rightarrow> thread_args_t \<Rightarrow> nat \<Rightarrow> match_t" where
  "entry_of sc args i =
     calculate_match sc (paths args ! i) (abbrev args) (case_sensitive args)
       (always_show_dot_files args) (never_show_dot_files args) (recurse args)"

definition stripes_inv ::
  "scorer \<Rightarrow> (nat \<Rightarrow> thread_args_t) \<Rightarrow> nat \<Rightarrow> nat \<Rightarrow> workers \<Rightarrow> bool" where
  "stripes_inv sc ta T n w \<longleftrightarrow>
     length (matches w) = n \<and> length (next_index w) = T \<and>
     (\<forall>k<T. next_index w ! k mod T = k) \<and>
     (\<forall>i<n. matches w ! i =
        (if i < next_index w ! (i mod T) then Some (entry_of sc (ta (i mod T)) i) else None)) \<and>
     distinct (map snd (calls w)) \<and>
     snd ` set (calls w) = {i. i < n \<and> i < next_index w ! (i mod T)} \<and>
     (\<forall>(k, i)\<in>set (calls w). k < T \<and> i mod T = k)"

text \<open>
  Modelled from the spec: the score that \<^verbatim>\<open>calculate_match\<close> (\<^verbatim>\<open>match.c\<close>, missing from the
  sources) gives for the empty pattern. The spec's scorer "returns 0 if the candidate is
  dot-hidden (its final path segment begins with \<^verbatim>\<open>.\<close>) and dot-hidden items are
  suppressed: suppressed when never-show-dot-files is set, or when always-show-dot-files is
  unset and the pattern's corresponding segment does not itself begin with \<^verbatim>\<open>.\<close>", and
  "otherwise returns a positive value"; the empty pattern is a subsequence of every
  candidate and has no segment that begins with a dot. The positive value is taken to be 1.
\<close>

definition dot_hidden :: "string \<Rightarrow> bool" where
  "dot_hidden p =
     (case rev (takeWhile (\<lambda>c. c \<noteq> CHR ''/'') (rev p)) of
        [] \<Rightarrow> False
      | c # _ \<Rightarrow> c = CHR ''.'')"

definition empty_pattern_score :: scorer where
  "empty_pattern_score p abbr cs always never rec =
     (if dot_hidden p \<and> (never \<or> \<not> always) then 0 else 1)"

text \<open>A requested worker count that is absent, or positive and within \<^verbatim>\<open>int\<close>.\<close>

definition positive_worker_count :: "64 word option \<Rightarrow> bool" where
  "positive_worker_count t =
     (case t of None \<Rightarrow> True | Some x \<Rightarrow> 1 \<le> sint x \<and> sint x \<le> INT_MAX)"

subsection \<open>Concrete calls for the examples\<close>

definition example_env :: env where
  "example_env =
     \<lparr>malloc_matches = True, malloc_threads = True, malloc_thread_args = True,
      pthread_create_err = (\<lambda>_. 0), pthread_join_err = (\<lambda>_. 0), schedule = []\<rparr>"

definition example_options :: options where
  "example_options =
     \<lparr>opt_case_sensitive = False, opt_limit = None, opt_threads = None, opt_sort = None,
      opt_ignore_spaces = False, opt_recurse = False\<rparr>"

definition example_matcher :: matcher where
  "example_matcher =
     \<lparr>iv_scanner = [''src/main'', ''.vimrc'', ''lib''],
      iv_always_show_dot_files = False, iv_never_show_dot_files = False\<rparr>"

text \<open>
  A scorer for the examples with a non-empty pattern, after the spec's first scenario: of
  the candidates \<^verbatim>\<open>foo/baz.txt\<close>, \<^verbatim>\<open>qux.txt\<close>, \<^verbatim>\<open>foo/bar.txt\<close> and \<^verbatim>\<open>fab\<close> the pattern
  \<^verbatim>\<open>fb\<close> matches all but \<^verbatim>\<open>qux.txt\<close>. The positive values are chosen freely, two of them
  equal.
\<close>

definition example_score :: scorer where
  "example_score p abbr cs always never rec =
     (if p = ''fab'' then 3 / 4
      else if p = ''foo/bar.txt'' \<or> p = ''foo/baz.txt'' then 1 / 2
      else 0)"

definition scenario_matcher :: matcher where
  "scenario_matcher =
     \<lparr>iv_scanner = [''foo/baz.txt'', ''qux.txt'', ''foo/bar.txt'', ''fab''],
      iv_always_show_dot_files = False, iv_never_show_dot_files = False\<rparr>"

text \<open>A matcher with a thousand candidates, the size from which threads are used.\<close>

definition large_matcher :: matcher where
  "large_matcher =
     \<lparr>iv_scanner = replicate 1000 ''a/b'',
      iv_always_show_dot_files = False, iv_never_show_dot_files = False\<rparr>"

text \<open>
  The alphabetic rule in the spec's words, as a second definition beside \<^verbatim>\<open>cmp_alpha\<close>:
  "compare candidate strings byte-wise up to the shorter length; if equal up to that
  point, the shorter string sorts first; otherwise the first non-equal byte decides".
\<close>

fun bytewise_le :: "string \<Rightarrow> string \<Rightarrow> bool" where
  "bytewise_le [] q = True"
| "bytewise_le (x # xs) [] = False"
| "bytewise_le (x # xs) (y # ys) =
     (if (of_char x :: nat) \<noteq> of_char y then (of_char x :: nat) < of_char y
      else bytewise_le xs ys)"

text \<open>
  A second scorer for the examples. It follows the spec's remark that "shorter, tighter
  matches score higher" and otherwise takes its positive values freely: every candidate
  scores with the inverse of its length plus one.
\<close>

definition short_first_score :: scorer where
  "short_first_score p abbr cs always never rec = 1 / (1 + real (length p))"

definition dot_matcher :: matcher where
  "dot_matcher =
     \<lparr>iv_scanner = [''b.'', ''aa.b''],
      iv_always_show_dot_files = False, iv_never_show_dot_files = False\<rparr>"

text \<open>Two candidates that share a NUL byte and differ after it.\<close>

definition nul_matcher :: matcher where
  "nul_matcher =
     \<lparr>iv_scanner = [[CHR ''x'', CHR 0x00, CHR ''b''], [CHR ''x'', CHR 0x00, CHR ''a'']],
      iv_always_show_dot_files = False, iv_never_show_dot_files = False\<rparr>"

section \<open>The comparators are consistent\<close>

lemma nul_char_unique: "of_char x = (0::nat) \<Longrightarrow> of_char y = (0::nat) \<longleftrightarrow> y = x"
  by (metis of_char_eq_iff)

lemma cmp_alpha_cmp_len: "cmp_alpha a b = cmp_len (path a) (path b)"
  by (simp add: cmp_alpha_def cmp_len_def Let_def)

lemma cmp_len_Cons:
  "cmp_len (x # xs) (y # ys) =
     (if (of_char x :: nat) \<noteq> of_char y then (if (of_char x :: nat) < of_char y then - 1 else 1)
      else if (of_char x :: nat) = 0 then
        (if length xs > length ys then 1 else if length xs < length ys then - 1 else 0)
      else cmp_len xs ys)"
proof -
  consider "length xs < length ys" | "length xs = length ys" | "length ys < length xs"
    by linarith
  then show ?thesis
  proof cases
    case 1
    then show ?thesis by (auto simp add: cmp_len_def byte_at_def nul_char_unique)
  next
    case 2
    then show ?thesis by (auto simp add: cmp_len_def byte_at_def nul_char_unique)
  next
    case 3
    then show ?thesis by (auto simp add: cmp_len_def byte_at_def nul_char_unique)
  qed
qed

lemma cmp_len_alpha_ord: "cmp_len p q = alpha_ord p q"
proof (induction p q rule: alpha_ord.induct)
  case 1
  show ?case by (simp add: cmp_len_def)
next
  case (2 y ys)
  show ?case by (simp add: cmp_len_def)
next
  case (3 x xs)
  show ?case by (simp add: cmp_len_def)
next
  case (4 x xs y ys)
  then show ?case by (simp add: cmp_len_Cons)
qed

lemma cmp_alpha_alpha_ord: "cmp_alpha a b = alpha_ord (path a) (path b)"
  by (simp add: cmp_alpha_cmp_len cmp_len_alpha_ord)

lemma alpha_ord_antisym: "alpha_ord q p = - alpha_ord p q"
  by (induction p q rule: alpha_ord.induct) simp_all

lemma alpha_ord_zero_iff:
  "alpha_ord p q = 0 \<longleftrightarrow> length p = length q \<and> c_str p = c_str q"
  by (induction p q rule: alpha_ord.induct) (auto simp: c_str_def nul_char_unique)

lemma alpha_ord_trans:
  "alpha_ord p q \<le> 0 \<Longrightarrow> alpha_ord q r \<le> 0 \<Longrightarrow> alpha_ord p r \<le> 0"
proof (induction p q arbitrary: r rule: alpha_ord.induct)
  case 1
  then show ?case by simp
next
  case (2 y ys)
  then show ?case by (cases r) simp_all
next
  case (3 x xs)
  then show ?case by simp
next
  case (4 x xs y ys)
  show ?case
  proof (cases r)
    case Nil
    with 4(3) show ?thesis by simp
  next
    case (Cons z zs)
    show ?thesis
    proof (cases "(of_char x :: nat) = of_char y")
      case xy: True
      show ?thesis
      proof (cases "(of_char y :: nat) = of_char z")
        case yz: True
        show ?thesis
        proof (cases "(of_char x :: nat) = 0")
          case True
          with xy yz 4(2,3) Cons show ?thesis by (simp split: if_splits)
        next
          case False
          with xy yz 4(2,3) Cons 4(1) [of zs] show ?thesis by simp
        qed
      next
        case False
        with xy 4(3) Cons show ?thesis by (simp split: if_splits)
      qed
    next
      case False
      with 4(2,3) Cons show ?thesis by (auto split: if_splits)
    qed
  qed
qed

lemma c_str_nul_free:
  assumes "\<And>c. c \<in> set s \<Longrightarrow> of_char c \<noteq> (0::nat)"
  shows "c_str s = s"
  using assms by (simp add: c_str_def)

lemma consistent_cmp_alpha: "consistent_cmp cmp_alpha"
  unfolding consistent_cmp_def
proof (intro conjI allI impI)
  fix a b
  show "sgn (cmp_alpha a b) = - sgn (cmp_alpha b a)"
    by (simp add: cmp_alpha_alpha_ord alpha_ord_antisym [of "path b" "path a"])
next
  fix a b c
  assume "cmp_alpha a b \<le> 0" "cmp_alpha b c \<le> 0"
  then show "cmp_alpha a c \<le> 0"
    using alpha_ord_trans [of "path a" "path b" "path c"] by (simp add: cmp_alpha_alpha_ord)
qed

lemma consistent_cmp_score: "consistent_cmp cmp_score"
  unfolding consistent_cmp_def
proof (intro conjI allI impI)
  fix a b
  show "sgn (cmp_score a b) = - sgn (cmp_score b a)"
    by (simp add: cmp_score_def cmp_alpha_alpha_ord alpha_ord_antisym [of "path b" "path a"])
next
  fix a b c
  assume ab: "cmp_score a b \<le> 0" and bc: "cmp_score b c \<le> 0"
  from ab have 1: "score b < score a \<or> (score a = score b \<and> alpha_ord (path a) (path b) \<le> 0)"
    by (simp add: cmp_score_def cmp_alpha_alpha_ord split: if_splits)
  from bc have 2: "score c < score b \<or> (score b = score c \<and> alpha_ord (path b) (path c) \<le> 0)"
    by (simp add: cmp_score_def cmp_alpha_alpha_ord split: if_splits)
  from 1 2 have "score c < score a \<or> (score a = score c \<and> alpha_ord (path a) (path c) \<le> 0)"
    using alpha_ord_trans [of "path a" "path b" "path c"] by auto
  then show "cmp_score a c \<le> 0"
    by (auto simp: cmp_score_def cmp_alpha_alpha_ord)
qed

section \<open>The workers fill the array\<close>

lemma same_stripe_less:
  fixes i j T :: nat
  assumes "j mod T = i mod T" "0 < T"
  shows "j < i + T \<longleftrightarrow> j \<le> i"
proof
  assume "j < i + T"
  show "j \<le> i"
  proof (rule ccontr)
    assume "\<not> j \<le> i"
    then have ij: "i \<le> j" "0 < j - i" by simp_all
    from assms(1) ij(1) have "T dvd j - i"
      by (simp add: mod_eq_dvd_iff_nat)
    with ij(2) have "T \<le> j - i" by (simp add: dvd_imp_le)
    with \<open>j < i + T\<close> ij(1) show False by simp
  qed
next
  assume "j \<le> i"
  with assms(2) show "j < i + T" by simp
qed

lemma entry_of_make [simp]:
  "entry_of sc (make_thread_args T cs n ps abbr al nv rc k) i =
     calculate_match sc (ps ! i) abbr cs al nv rc"
  by (simp add: entry_of_def make_thread_args_def)

lemma step_unfold:
  "match_thread_step sc (make_thread_args T cs n ps abbr al nv rc) k w =
     (if k < length (next_index w) \<and> next_index w ! k < n then
        w\<lparr>matches := (matches w)[next_index w ! k :=
               Some (calculate_match sc (ps ! (next_index w ! k)) abbr cs al nv rc)],
          next_index := (next_index w)[k := next_index w ! k + T],
          calls := calls w @ [(k, next_index w ! k)]\<rparr>
      else w)"
  by (simp add: match_thread_step_def make_thread_args_def Let_def)

lemma step_inv:
  assumes T: "0 < T" and inv: "stripes_inv sc (make_thread_args T cs n ps abbr al nv rc) T n w"
  shows "stripes_inv sc (make_thread_args T cs n ps abbr al nv rc) T n
           (match_thread_step sc (make_thread_args T cs n ps abbr al nv rc) k w)"
proof (cases "k < length (next_index w) \<and> next_index w ! k < n")
  case False
  with inv show ?thesis by (auto simp add: step_unfold)
next
  case True
  define i where "i = next_index w ! k"
  from inv have len: "length (matches w) = n" "length (next_index w) = T"
    and md: "\<forall>k<T. next_index w ! k mod T = k"
    and mt: "\<forall>j<n. matches w ! j =
        (if j < next_index w ! (j mod T) then Some (calculate_match sc (ps ! j) abbr cs al nv rc) else None)"
    and dist: "distinct (map snd (calls w))"
    and cs: "snd ` set (calls w) = {j. j < n \<and> j < next_index w ! (j mod T)}"
    and ow: "\<forall>(k, i)\<in>set (calls w). k < T \<and> i mod T = k"
    by (simp_all add: stripes_inv_def)
  from True len have kT: "k < T" and i_n: "i < n" by (simp_all add: i_def)
  from md kT have ik: "i mod T = k" by (simp add: i_def)
  have nxt: "(next_index w)[k := i + T] ! (j mod T) = (if j mod T = k then i + T else next_index w ! (j mod T))" for j
    using len T kT by (simp add: nth_list_update)
  have key: "j < (next_index w)[k := i + T] ! (j mod T) \<longleftrightarrow> j = i \<or> j < next_index w ! (j mod T)" for j
  proof (cases "j mod T = k")
    case True
    with ik same_stripe_less [of j T i] T have "j < i + T \<longleftrightarrow> j \<le> i" by simp
    moreover from True have "next_index w ! (j mod T) = i" by (simp add: i_def)
    moreover from True nxt [of j] have "(next_index w)[k := i + T] ! (j mod T) = i + T" by simp
    ultimately show ?thesis by (simp add: le_less eq_commute disj_commute)
  next
    case False
    with ik show ?thesis by (auto simp: nxt)
  qed
  have nk: "next_index w ! k = i" by (simp add: i_def)
  have fresh: "i \<notin> snd ` set (calls w)" by (simp add: cs ik nk)
  define w' where "w' = w\<lparr>matches := (matches w)[i := Some (calculate_match sc (ps ! i) abbr cs al nv rc)],
          next_index := (next_index w)[k := i + T],
          calls := calls w @ [(k, i)]\<rparr>"
  have c1: "length (matches w') = n \<and> length (next_index w') = T"
    using len by (simp add: w'_def)
  have c2: "\<forall>k'<T. next_index w' ! k' mod T = k'"
  proof (intro allI impI)
    fix k' assume k': "k' < T"
    show "next_index w' ! k' mod T = k'"
    proof (cases "k' = k")
      case True
      with kT len have "next_index w' ! k' = i + T" by (simp add: w'_def)
      with ik True show ?thesis by simp
    next
      case False
      then have "next_index w' ! k' = next_index w ! k'" by (simp add: w'_def)
      with md k' show ?thesis by simp
    qed
  qed
  have c3: "\<forall>j<n. matches w' ! j =
        (if j < next_index w' ! (j mod T) then Some (calculate_match sc (ps ! j) abbr cs al nv rc) else None)"
  proof (intro allI impI)
    fix j assume "j < n"
    with mt len i_n show "matches w' ! j =
        (if j < next_index w' ! (j mod T) then Some (calculate_match sc (ps ! j) abbr cs al nv rc) else None)"
      using key [of j] by (cases "j = i") (simp_all add: w'_def nth_list_update)
  qed
  have c4: "distinct (map snd (calls w'))"
    using dist fresh by (simp add: w'_def)
  have c5: "snd ` set (calls w') = {j. j < n \<and> j < next_index w' ! (j mod T)}"
    using cs i_n key by (auto simp: w'_def)
  have c6: "\<forall>(k, i)\<in>set (calls w'). k < T \<and> i mod T = k"
    using ow kT ik by (auto simp: w'_def)
  from c1 c2 c3 c4 c5 c6 have "stripes_inv sc (make_thread_args T cs n ps abbr al nv rc) T n w'"
    by (simp add: stripes_inv_def)
  with True show ?thesis by (simp add: step_unfold w'_def i_def)
qed

lemma funpow_inv:
  assumes "0 < T" "stripes_inv sc (make_thread_args T cs n ps abbr al nv rc) T n w"
  shows "stripes_inv sc (make_thread_args T cs n ps abbr al nv rc) T n
           ((match_thread_step sc (make_thread_args T cs n ps abbr al nv rc) k ^^ m) w)"
  using assms by (induction m) (simp_all add: step_inv)

lemma match_thread_inv:
  assumes "0 < T" "stripes_inv sc (make_thread_args T cs n ps abbr al nv rc) T n w"
  shows "stripes_inv sc (make_thread_args T cs n ps abbr al nv rc) T n
           (match_thread sc (make_thread_args T cs n ps abbr al nv rc) k w)"
  using assms by (simp add: match_thread_def funpow_inv)

lemma foldl_step_inv:
  assumes "0 < T" "stripes_inv sc (make_thread_args T cs n ps abbr al nv rc) T n w"
  shows "stripes_inv sc (make_thread_args T cs n ps abbr al nv rc) T n
           (foldl (\<lambda>w k. match_thread_step sc (make_thread_args T cs n ps abbr al nv rc) k w) w ks)"
  using assms by (induction ks arbitrary: w) (simp_all add: step_inv)

lemma foldl_match_thread_inv:
  assumes "0 < T" "stripes_inv sc (make_thread_args T cs n ps abbr al nv rc) T n w"
  shows "stripes_inv sc (make_thread_args T cs n ps abbr al nv rc) T n
           (foldl (\<lambda>w k. match_thread sc (make_thread_args T cs n ps abbr al nv rc) k w) w ks)"
  using assms by (induction ks arbitrary: w) (simp_all add: match_thread_inv)

lemma initial_inv:
  assumes "0 < T"
  shows "stripes_inv sc (make_thread_args T cs n ps abbr al nv rc) T n
     (initial_workers (make_thread_args T cs n ps abbr al nv rc) T n)"
proof -
  have "\<not> i < [0..<T] ! (i mod T)" for i :: nat
    using assms by (simp add: not_less)
  then show ?thesis
    by (simp add: stripes_inv_def initial_workers_def make_thread_args_def)
qed

lemma step_next_mono:
  "k < length (next_index w) \<Longrightarrow>
   next_index w ! k \<le> next_index (match_thread_step sc (make_thread_args T cs n ps abbr al nv rc) j w) ! k"
  by (simp add: step_unfold nth_list_update)

lemma step_length_next:
  "length (next_index (match_thread_step sc (make_thread_args T cs n ps abbr al nv rc) j w)) = length (next_index w)"
  by (simp add: step_unfold)

lemma step_progress:
  assumes "0 < T" "k < length (next_index w)"
  shows "n \<le> next_index ((match_thread_step sc (make_thread_args T cs n ps abbr al nv rc) k ^^ m) w) ! k
       \<or> next_index w ! k + m \<le> next_index ((match_thread_step sc (make_thread_args T cs n ps abbr al nv rc) k ^^ m) w) ! k"
proof (induction m)
  case 0
  show ?case by simp
next
  case (Suc m)
  let ?f = "match_thread_step sc (make_thread_args T cs n ps abbr al nv rc) k"
  let ?w = "(?f ^^ m) w"
  have len: "k < length (next_index ?w)"
    using assms(2) by (induction m) (simp_all add: step_length_next)
  show ?case
  proof (cases "next_index ?w ! k < n")
    case True
    with len assms(1) have "next_index (?f ?w) ! k = next_index ?w ! k + T"
      by (simp add: step_unfold)
    with Suc True assms(1) show ?thesis by auto
  next
    case False
    then have "?f ?w = ?w" by (simp add: step_unfold)
    with False show ?thesis by simp
  qed
qed

lemma match_thread_finished:
  assumes "0 < T" "k < length (next_index w)"
  shows "n \<le> next_index (match_thread sc (make_thread_args T cs n ps abbr al nv rc) k w) ! k"
proof -
  have "path_count (make_thread_args T cs n ps abbr al nv rc k) = n"
    by (simp add: make_thread_args_def)
  moreover have "n \<le> next_index ((match_thread_step sc (make_thread_args T cs n ps abbr al nv rc) k ^^ n) w) ! k"
    using step_progress [OF assms, where m = n and n = n and sc = sc and cs = cs and ps = ps
        and abbr = abbr and al = al and nv = nv and rc = rc]
    by linarith
  ultimately show ?thesis
    by (simp add: match_thread_def)
qed

lemma match_thread_length_next:
  "length (next_index (match_thread sc (make_thread_args T cs n ps abbr al nv rc) j w)) = length (next_index w)"
proof -
  have "length (next_index ((match_thread_step sc (make_thread_args T cs n ps abbr al nv rc) j ^^ m) w)) = length (next_index w)" for m
    by (induction m) (simp_all add: step_length_next)
  then show ?thesis by (simp add: match_thread_def)
qed

lemma match_thread_next_mono:
  assumes "k < length (next_index w)"
  shows "next_index w ! k \<le> next_index (match_thread sc (make_thread_args T cs n ps abbr al nv rc) j w) ! k"
proof -
  let ?f = "match_thread_step sc (make_thread_args T cs n ps abbr al nv rc) j"
  have "k < length (next_index ((?f ^^ m) w)) \<and> next_index w ! k \<le> next_index ((?f ^^ m) w) ! k" for m
  proof (induction m)
    case 0
    with assms show ?case by simp
  next
    case (Suc m)
    then have "next_index ((?f ^^ m) w) ! k \<le> next_index (?f ((?f ^^ m) w)) ! k"
      by (simp add: step_next_mono)
    with Suc show ?case by (simp add: step_length_next)
  qed
  then show ?thesis by (simp add: match_thread_def)
qed

lemma foldl_match_thread_length_next:
  "length (next_index (foldl (\<lambda>w k. match_thread sc (make_thread_args T cs n ps abbr al nv rc) k w) w ks)) = length (next_index w)"
  by (induction ks arbitrary: w) (simp_all add: match_thread_length_next)

lemma foldl_match_thread_next_mono:
  "k < length (next_index w) \<Longrightarrow>
   next_index w ! k \<le> next_index (foldl (\<lambda>w k. match_thread sc (make_thread_args T cs n ps abbr al nv rc) k w) w ks) ! k"
proof (induction ks arbitrary: w)
  case Nil
  show ?case by simp
next
  case (Cons j ks)
  let ?w = "match_thread sc (make_thread_args T cs n ps abbr al nv rc) j w"
  from Cons.prems have "next_index w ! k \<le> next_index ?w ! k"
    by (rule match_thread_next_mono)
  moreover from Cons.prems have "k < length (next_index ?w)"
    by (simp add: match_thread_length_next)
  then have "next_index ?w ! k \<le> next_index (foldl (\<lambda>w k. match_thread sc (make_thread_args T cs n ps abbr al nv rc) k w) ?w ks) ! k"
    by (rule Cons.IH)
  ultimately show ?case by simp
qed

lemma foldl_match_thread_finished:
  assumes "0 < T" "k \<in> set ks" "k < length (next_index w)"
  shows "n \<le> next_index (foldl (\<lambda>w k. match_thread sc (make_thread_args T cs n ps abbr al nv rc) k w) w ks) ! k"
  using assms(2,3)
proof (induction ks arbitrary: w)
  case Nil
  then show ?case by simp
next
  case (Cons j ks)
  let ?w = "match_thread sc (make_thread_args T cs n ps abbr al nv rc) j w"
  have len: "k < length (next_index ?w)"
    using Cons.prems(2) by (simp add: match_thread_length_next)
  show ?case
  proof (cases "k = j")
    case True
    with assms(1) Cons.prems(2) have "n \<le> next_index ?w ! k"
      by (simp add: match_thread_finished)
    also from len have "\<dots> \<le> next_index (foldl (\<lambda>w k. match_thread sc (make_thread_args T cs n ps abbr al nv rc) k w) ?w ks) ! k"
      by (rule foldl_match_thread_next_mono)
    finally show ?thesis by simp
  next
    case False
    with Cons.prems(1) have "k \<in> set ks" by simp
    from Cons.IH [OF this len] show ?thesis by simp
  qed
qed

lemma foldl_step_length_next:
  "length (next_index (foldl (\<lambda>w k. match_thread_step sc (make_thread_args T cs n ps abbr al nv rc) k w) w ks)) = length (next_index w)"
  by (induction ks arbitrary: w) (simp_all add: step_length_next)

lemma run_workers_finished:
  assumes "0 < T" "k < T"
  shows "n \<le> next_index (run_workers sc (make_thread_args T cs n ps abbr al nv rc) T sched
           (initial_workers (make_thread_args T cs n ps abbr al nv rc) T n)) ! k"
proof -
  let ?ta = "make_thread_args T cs n ps abbr al nv rc"
  let ?w1 = "foldl (\<lambda>w k. match_thread_step sc ?ta k w) (initial_workers ?ta T n) sched"
  let ?w2 = "match_thread sc ?ta (T - 1) ?w1"
  have l1: "length (next_index ?w1) = T"
    by (simp add: foldl_step_length_next initial_workers_def)
  then have l2: "length (next_index ?w2) = T"
    by (simp add: match_thread_length_next)
  show ?thesis
  proof (cases "k = T - 1")
    case True
    with assms l1 have "n \<le> next_index ?w2 ! k"
      by (simp add: match_thread_finished)
    also from assms l2 have "\<dots> \<le> next_index (foldl (\<lambda>w k. match_thread sc ?ta k w) ?w2 [0..<T - 1]) ! k"
      by (simp add: foldl_match_thread_next_mono)
    finally show ?thesis by (simp add: run_workers_def Let_def)
  next
    case False
    with assms have "k \<in> set [0..<T - 1]" by simp
    with assms l2 have "n \<le> next_index (foldl (\<lambda>w k. match_thread sc ?ta k w) ?w2 [0..<T - 1]) ! k"
      by (simp add: foldl_match_thread_finished)
    then show ?thesis by (simp add: run_workers_def Let_def)
  qed
qed

lemma run_workers_inv:
  assumes "0 < T"
  shows "stripes_inv sc (make_thread_args T cs n ps abbr al nv rc) T n
     (run_workers sc (make_thread_args T cs n ps abbr al nv rc) T sched
           (initial_workers (make_thread_args T cs n ps abbr al nv rc) T n))"
  using assms
  by (simp add: run_workers_def Let_def foldl_match_thread_inv match_thread_inv foldl_step_inv initial_inv)


lemma run_workers_matches:
  assumes "0 < T" "n = length ps"
  shows "matches (run_workers sc (make_thread_args T cs n ps abbr al nv rc) T sched
           (initial_workers (make_thread_args T cs n ps abbr al nv rc) T n))
         = map (\<lambda>p. Some (calculate_match sc p abbr cs al nv rc)) ps"
proof (rule nth_equalityI)
  let ?w = "run_workers sc (make_thread_args T cs n ps abbr al nv rc) T sched
           (initial_workers (make_thread_args T cs n ps abbr al nv rc) T n)"
  from assms(1) have inv: "stripes_inv sc (make_thread_args T cs n ps abbr al nv rc) T n ?w"
    by (rule run_workers_inv)
  then show "length (matches ?w) = length (map (\<lambda>p. Some (calculate_match sc p abbr cs al nv rc)) ps)"
    using assms(2) by (simp add: stripes_inv_def)
  fix i assume "i < length (matches ?w)"
  with inv have i: "i < n" by (simp add: stripes_inv_def)
  from assms(1) have "i mod T < T" by simp
  with assms(1) have "n \<le> next_index ?w ! (i mod T)"
    by (simp add: run_workers_finished)
  with i have "i < next_index ?w ! (i mod T)" by simp
  with inv i have "matches ?w ! i = Some (calculate_match sc (ps ! i) abbr cs al nv rc)"
    by (simp add: stripes_inv_def)
  with i assms(2) show "matches ?w ! i = map (\<lambda>p. Some (calculate_match sc p abbr cs al nv rc)) ps ! i"
    by simp
qed

lemma run_workers_calls:
  assumes "0 < T"
  shows "mset (map snd (calls (run_workers sc (make_thread_args T cs n ps abbr al nv rc) T sched
           (initial_workers (make_thread_args T cs n ps abbr al nv rc) T n)))) = mset [0..<n]"
    and "\<forall>(k, i)\<in>set (calls (run_workers sc (make_thread_args T cs n ps abbr al nv rc) T sched
           (initial_workers (make_thread_args T cs n ps abbr al nv rc) T n))). k < T \<and> i mod T = k"
proof -
  let ?w = "run_workers sc (make_thread_args T cs n ps abbr al nv rc) T sched
           (initial_workers (make_thread_args T cs n ps abbr al nv rc) T n)"
  from assms(1) have inv: "stripes_inv sc (make_thread_args T cs n ps abbr al nv rc) T n ?w"
    by (rule run_workers_inv)
  have fin: "n \<le> next_index ?w ! (i mod T)" for i
    using assms by (simp add: run_workers_finished)
  from inv have "set (map snd (calls ?w)) = {i. i < n \<and> i < next_index ?w ! (i mod T)}"
    by (simp add: stripes_inv_def)
  also have "\<dots> = set [0..<n]"
  proof -
    have "i < n \<Longrightarrow> i < next_index ?w ! (i mod T)" for i
      using fin [of i] by linarith
    then show ?thesis by auto
  qed
  finally have "set (map snd (calls ?w)) = set [0..<n]" .
  moreover from inv have "distinct (map snd (calls ?w))"
    by (simp add: stripes_inv_def)
  ultimately show "mset (map snd (calls ?w)) = mset [0..<n]"
    using set_eq_iff_mset_eq_distinct [of "map snd (calls ?w)" "[0..<n]"] distinct_upt [of 0 n]
    by blast
  from inv show "\<forall>(k, i)\<in>set (calls ?w). k < T \<and> i mod T = k"
    by (simp add: stripes_inv_def)
qed

lemma run_workers_call_set:
  assumes "0 < T"
  shows "set (calls (run_workers sc (make_thread_args T cs n ps abbr al nv rc) T sched
           (initial_workers (make_thread_args T cs n ps abbr al nv rc) T n)))
         = (\<lambda>i. (i mod T, i)) ` {..<n}"
proof -
  let ?w = "run_workers sc (make_thread_args T cs n ps abbr al nv rc) T sched
           (initial_workers (make_thread_args T cs n ps abbr al nv rc) T n)"
  from assms have "mset (map snd (calls ?w)) = mset [0..<n]"
    by (rule run_workers_calls(1))
  then have "set (map snd (calls ?w)) = set [0..<n]"
    by (rule mset_eq_setD)
  then have idx: "snd ` set (calls ?w) = {..<n}"
    by (simp add: atLeast0LessThan)
  from assms have own: "\<forall>(k, i)\<in>set (calls ?w). k < T \<and> i mod T = k"
    by (rule run_workers_calls(2))
  show ?thesis
  proof (intro set_eqI iffI)
    fix x assume x: "x \<in> set (calls ?w)"
    then have "snd x \<in> {..<n}" using idx by blast
    moreover from x own have "fst x = snd x mod T" by (cases x) auto
    ultimately show "x \<in> (\<lambda>i. (i mod T, i)) ` {..<n}"
      by (cases x) auto
  next
    fix x assume "x \<in> (\<lambda>i. (i mod T, i)) ` {..<n}"
    then obtain i where i: "i < n" "x = (i mod T, i)" by auto
    with idx have "i \<in> snd ` set (calls ?w)" by simp
    then obtain k where k: "(k, i) \<in> set (calls ?w)" by auto
    with own have "k = i mod T" by auto
    with k i show "x \<in> set (calls ?w)" by simp
  qed
qed

text \<open>Rules that run the workers on a concrete state.\<close>

lemma step_eval:
  "match_thread_step sc (make_thread_args T cs n ps abbr al nv rc) k
     \<lparr>matches = ms, next_index = nx, calls = cl\<rparr> =
     (if k < length nx \<and> nx ! k < n then
        \<lparr>matches = ms[nx ! k := Some \<lparr>path = ps ! (nx ! k), score = sc (ps ! (nx ! k)) abbr cs al nv rc\<rparr>],
         next_index = nx[k := nx ! k + T],
         calls = cl @ [(k, nx ! k)]\<rparr>
      else \<lparr>matches = ms, next_index = nx, calls = cl\<rparr>)"
  by (simp add: step_unfold calculate_match_def)

lemma match_thread_eval:
  "match_thread sc (make_thread_args T cs n ps abbr al nv rc) k
     \<lparr>matches = ms, next_index = nx, calls = cl\<rparr> =
   (match_thread_step sc (make_thread_args T cs n ps abbr al nv rc) k ^^ n)
     \<lparr>matches = ms, next_index = nx, calls = cl\<rparr>"
  by (simp add: match_thread_def make_thread_args_def)

lemma run_workers_eval:
  "run_workers sc (make_thread_args T cs n ps abbr al nv rc) T sched
     (initial_workers (make_thread_args T cs n ps abbr al nv rc) T n) =
   foldl (\<lambda>w k. match_thread sc (make_thread_args T cs n ps abbr al nv rc) k w)
     (match_thread sc (make_thread_args T cs n ps abbr al nv rc) (T - 1)
        (foldl (\<lambda>w k. match_thread_step sc (make_thread_args T cs n ps abbr al nv rc) k w)
           \<lparr>matches = replicate n None, next_index = [0..<T], calls = []\<rparr> sched))
     [0..<T - 1]"
proof -
  have "map (\<lambda>i. thread_index (make_thread_args T cs n ps abbr al nv rc i)) [0..<T] = [0..<T]"
    by (simp add: make_thread_args_def map_idI)
  then show ?thesis
    by (simp add: run_workers_def initial_workers_def Let_def)
qed

lemma example_run7:
  "run_workers example_score
       (make_thread_args 3 False 7 [''a'', ''b'', ''c'', ''fab'', ''e'', ''f'', ''g''] ''fb'' False False False)
       3 [2, 2, 0, 1, 1, 5, 0]
       (initial_workers
         (make_thread_args 3 False 7 [''a'', ''b'', ''c'', ''fab'', ''e'', ''f'', ''g''] ''fb'' False False False) 3 7)
   = \<lparr>matches = [Some \<lparr>path = ''a'', score = 0\<rparr>, Some \<lparr>path = ''b'', score = 0\<rparr>,
        Some \<lparr>path = ''c'', score = 0\<rparr>, Some \<lparr>path = ''fab'', score = 3 / 4\<rparr>,
        Some \<lparr>path = ''e'', score = 0\<rparr>, Some \<lparr>path = ''f'', score = 0\<rparr>,
        Some \<lparr>path = ''g'', score = 0\<rparr>],
      next_index = [9, 7, 8],
      calls = [(2, 2), (2, 5), (0, 0), (1, 1), (1, 4), (0, 3), (0, 6)]\<rparr>"
  by (simp add: run_workers_eval match_thread_eval step_eval example_score_def eval_nat_numeral)

section \<open>The result of a call\<close>

lemma those_map_Some: "those (map Some xs) = Some xs"
  by (induction xs) simp_all

lemma those_replicate_None: "0 < n \<Longrightarrow> those (replicate n None) = None"
  by (cases n) simp_all

lemma step_no_workers:
  "next_index w = [] \<Longrightarrow> match_thread_step sc ta k w = w"
  by (simp add: match_thread_step_def)

lemma match_thread_no_workers:
  "next_index w = [] \<Longrightarrow> match_thread sc ta k w = w"
proof -
  assume a: "next_index w = []"
  have "(match_thread_step sc ta k ^^ m) w = w" for m
    by (induction m) (simp_all add: a step_no_workers)
  then show ?thesis by (simp add: match_thread_def)
qed

lemma run_no_workers:
  "run_workers sc ta 0 sched (initial_workers ta 0 n) = initial_workers ta 0 n"
proof -
  have "foldl (\<lambda>w k. match_thread_step sc ta k w) (initial_workers ta 0 n) ks = initial_workers ta 0 n" for ks
    by (induction ks) (simp_all add: step_no_workers initial_workers_def)
  then show ?thesis
    by (simp add: run_workers_def match_thread_no_workers initial_workers_def)
qed

lemma first_error_None_iff: "first_error err n = None \<longleftrightarrow> (\<forall>k<n. err k = 0)"
  by (auto simp: first_error_def find_None_iff)

lemma snd_sorted_matches_for:
  "snd (sorted_matches_for qsort sc e self abbrev_arg opts) =
     (case abbrev_arg of
        None \<Rightarrow> Inl ArgError
      | Some abbr0 \<Rightarrow>
          if \<not> malloc_matches e \<or> \<not> malloc_threads e \<or> \<not> malloc_thread_args e then Inl NoMemError
          else if INT_MAX < effective_thread_count (length (iv_scanner self)) (opt_threads opts)
            then Inl Undefined_behaviour
          else if first_error (pthread_create_err e)
              (nat (effective_thread_count (length (iv_scanner self)) (opt_threads opts)) - 1) \<noteq> None
            then Inl SystemCallError
          else if first_error (pthread_join_err e)
              (nat (effective_thread_count (length (iv_scanner self)) (opt_threads opts)) - 1) \<noteq> None
            then Inl SystemCallError
          else if effective_thread_count (length (iv_scanner self)) (opt_threads opts) \<le> 0
            then Inl Undefined_behaviour
          else Inr (collect_results (opt_limit opts)
                 (sort_matches qsort (opt_sort opts) (normalize_abbrev opts abbr0)
                    (map (scored sc self opts abbr0) (iv_scanner self)))))"
proof (cases abbrev_arg)
  case None
  then show ?thesis by (simp add: sorted_matches_for_def)
next
  case (Some abbr0)
  define eff where "eff = effective_thread_count (length (iv_scanner self)) (opt_threads opts)"
  define ta where "ta = make_thread_args (nat eff) (opt_case_sensitive opts) (length (iv_scanner self))
     (iv_scanner self) (normalize_abbrev opts abbr0)
                      (iv_always_show_dot_files self) (iv_never_show_dot_files self)
                      (opt_recurse opts)"
  define w where "w = run_workers sc ta (nat eff) (schedule e) (initial_workers ta (nat eff) (length (iv_scanner self)))"
  have those_w: "those (matches w) = (if eff \<le> 0 then None
      else Some (map (scored sc self opts abbr0) (iv_scanner self)))"
  proof (cases "eff \<le> 0")
    case True
    then have "nat eff = 0" by simp
    then have "w = initial_workers ta 0 (length (iv_scanner self))"
      by (simp add: w_def run_no_workers)
    moreover from True have "0 < length (iv_scanner self)"
      by (auto simp: eff_def effective_thread_count_def Let_def THREAD_THRESHOLD_def split: if_splits)
    ultimately show ?thesis using True
      by (simp add: initial_workers_def those_replicate_None)
  next
    case False
    then have "0 < nat eff" by simp
    then have "matches w = map (\<lambda>p. Some (scored sc self opts abbr0 p)) (iv_scanner self)"
      unfolding w_def ta_def scored_def by (rule run_workers_matches) simp
    then have "matches w = map Some (map (scored sc self opts abbr0) (iv_scanner self))"
      by simp
    with False show ?thesis by (simp only: those_map_Some if_False)
  qed
  show ?thesis
    using those_w
    by (simp add: Some sorted_matches_for_def Let_def eff_def [symmetric] ta_def [symmetric] w_def [symmetric]
        split: option.splits)
qed

lemma positive_worker_count_effective:
  assumes "positive_worker_count t"
  shows "0 < effective_thread_count n t" and "effective_thread_count n t \<le> INT_MAX"
  using assms
  by (auto simp: positive_worker_count_def effective_thread_count_def INT_MAX_def Let_def
      split: option.splits)

lemma env_ok_no_error:
  assumes "env_ok e"
  shows "first_error (pthread_create_err e) m = None" and "first_error (pthread_join_err e) m = None"
  using assms by (simp_all add: env_ok_def first_error_None_iff)

lemma sorted_matches_for_returns:
  assumes "env_ok e"
    and "0 < effective_thread_count (length (iv_scanner self)) (opt_threads opts)"
    and "effective_thread_count (length (iv_scanner self)) (opt_threads opts) \<le> INT_MAX"
  shows "snd (sorted_matches_for qsort sc e self (Some abbr0) opts) =
     Inr (collect_results (opt_limit opts)
            (sort_matches qsort (opt_sort opts) (normalize_abbrev opts abbr0)
               (map (scored sc self opts abbr0) (iv_scanner self))))"
proof -
  from assms(1) have "malloc_matches e" "malloc_threads e" "malloc_thread_args e"
    by (simp_all add: env_ok_def)
  with assms show ?thesis
    by (simp add: snd_sorted_matches_for env_ok_no_error)
qed

lemma sorted_matches_for_InrD:
  assumes "snd (sorted_matches_for qsort sc e self abbrev_arg opts) = Inr out"
  obtains abbr0 where "abbrev_arg = Some abbr0"
    and "out = collect_results (opt_limit opts)
            (sort_matches qsort (opt_sort opts) (normalize_abbrev opts abbr0)
               (map (scored sc self opts abbr0) (iv_scanner self)))"
  using assms
  by (auto simp: snd_sorted_matches_for split: option.splits if_splits)

lemma scored_threads [simp]:
  "scored sc self (opts\<lparr>opt_threads := t\<rparr>) = scored sc self opts"
  by (simp add: scored_def normalize_abbrev_def fun_eq_iff)

lemma scored_limit [simp]:
  "scored sc self (opts\<lparr>opt_limit := l\<rparr>) = scored sc self opts"
  by (simp add: scored_def normalize_abbrev_def fun_eq_iff)

lemma normalize_abbrev_threads [simp]:
  "normalize_abbrev (opts\<lparr>opt_threads := t\<rparr>) = normalize_abbrev opts"
  by (simp add: normalize_abbrev_def fun_eq_iff)

lemma normalize_abbrev_limit [simp]:
  "normalize_abbrev (opts\<lparr>opt_limit := l\<rparr>) = normalize_abbrev opts"
  by (simp add: normalize_abbrev_def fun_eq_iff)

section \<open>Sorting and collecting\<close>

lemma mset_insert_by: "mset (insert_by cmp m xs) = add_mset m (mset xs)"
  by (induction xs) simp_all

lemma set_insert_by: "set (insert_by cmp m xs) = insert m (set xs)"
  by (induction xs) auto

lemma consistent_cmp_total:
  assumes "consistent_cmp cmp" "\<not> cmp a b \<le> 0"
  shows "cmp b a \<le> 0"
proof -
  from assms(1) have eq: "sgn (cmp a b) = - sgn (cmp b a)"
    unfolding consistent_cmp_def by blast
  from assms(2) have "sgn (cmp a b) = 1" by simp
  with eq have "sgn (cmp b a) = - 1" by simp
  then have "cmp b a < 0" by (simp only: sgn_1_neg)
  then show ?thesis by simp
qed

lemma consistent_cmp_trans:
  assumes "consistent_cmp cmp" "cmp a b \<le> 0" "cmp b c \<le> 0"
  shows "cmp a c \<le> 0"
  using assms unfolding consistent_cmp_def by blast

lemma sorted_insert_by:
  assumes "consistent_cmp cmp"
  shows "sorted_wrt (\<lambda>a b. cmp a b \<le> 0) xs \<Longrightarrow> sorted_wrt (\<lambda>a b. cmp a b \<le> 0) (insert_by cmp m xs)"
proof (induction xs)
  case Nil
  show ?case by simp
next
  case (Cons x xs)
  show ?case
  proof (cases "cmp m x \<le> 0")
    case True
    with Cons.prems assms have "\<forall>y\<in>set xs. cmp m y \<le> 0"
      by (auto intro: consistent_cmp_trans)
    with True Cons.prems show ?thesis by simp
  next
    case False
    with assms have "cmp x m \<le> 0" by (rule consistent_cmp_total)
    with False Cons show ?thesis by (simp add: set_insert_by)
  qed
qed

lemma insertion_sort_contract: "qsort_contract insertion_sort"
  unfolding qsort_contract_def
proof (intro allI impI conjI)
  fix cmp ms
  show "mset (insertion_sort cmp ms) = mset ms"
    by (induction ms) (simp_all add: insertion_sort_def mset_insert_by)
  assume "consistent_cmp cmp"
  then show "sorted_wrt (\<lambda>a b. cmp a b \<le> 0) (insertion_sort cmp ms)"
    by (induction ms) (simp_all add: insertion_sort_def sorted_insert_by)
qed

lemma collect_eq:
  "collect ms limit res = res @ take (nat limit) (map path (filter (\<lambda>m. 0 < score m) ms))"
proof (induction ms arbitrary: limit res)
  case Nil
  show ?case by simp
next
  case (Cons m ms)
  show ?case
  proof (cases "0 < limit")
    case True
    then have "nat limit = Suc (nat (limit - 1))" by simp
    with True Cons show ?thesis by simp
  next
    case False
    then show ?thesis by simp
  qed
qed

lemma collect_results_eq:
  "collect_results limit_option ms =
     (case limit_option of
        None \<Rightarrow> map path (filter (\<lambda>m. 0 < score m) ms)
      | Some l \<Rightarrow>
          if sint l = 0 then map path (filter (\<lambda>m. 0 < score m) ms)
          else take (nat (sint l)) (map path (filter (\<lambda>m. 0 < score m) ms)))"
proof -
  have "length (map path (filter (\<lambda>m. 0 < score m) ms)) \<le> length ms"
    by simp
  then have "take (length ms) (map path (filter (\<lambda>m. 0 < score m) ms)) = map path (filter (\<lambda>m. 0 < score m) ms)"
    by (rule take_all)
  then show ?thesis
    by (simp add: collect_results_def collect_eq Let_def split: option.splits)
qed

lemma dot_or_empty_iff:
  "length abbr = 0 \<or> (length abbr = 1 \<and> abbr ! 0 = CHR ''.'') \<longleftrightarrow> abbr = [] \<or> abbr = ''.''"
proof (cases abbr)
  case Nil
  then show ?thesis by simp
next
  case (Cons c cs)
  then show ?thesis by (cases cs) auto
qed

lemma mset_sort_matches:
  assumes "qsort_contract qsort"
  shows "mset (sort_matches qsort sort_option abbr ms) = mset ms"
  using assms consistent_cmp_alpha consistent_cmp_score
  unfolding qsort_contract_def sort_matches_def by (simp del: length_0_conv)

lemma set_sort_matches:
  assumes "qsort_contract qsort"
  shows "set (sort_matches qsort sort_option abbr ms) = set ms"
  using mset_sort_matches [OF assms] by (rule mset_eq_setD)

lemma sort_matches_by_score:
  assumes "qsort_contract qsort" "sort_option = None \<or> sort_option = Some True"
    and "abbr \<noteq> []" "abbr \<noteq> ''.''"
  shows "sorted_wrt (\<lambda>a b. cmp_score a b \<le> 0) (sort_matches qsort sort_option abbr ms)"
proof -
  from assms(3,4) have "\<not> (length abbr = 0 \<or> (length abbr = 1 \<and> abbr ! 0 = CHR ''.''))"
    by (simp only: dot_or_empty_iff) simp
  with assms(2) have "sort_matches qsort sort_option abbr ms = qsort cmp_score ms"
    unfolding sort_matches_def by (simp only: if_True if_False)
  with assms(1) consistent_cmp_score show ?thesis
    unfolding qsort_contract_def by simp
qed


lemma path_scored [simp]: "path (scored sc self opts abbr0 p) = p"
  by (simp add: scored_def calculate_match_def)

lemma sorted_wrt_collect_results:
  assumes "sorted_wrt R (map path (filter (\<lambda>m. 0 < score m) ms))"
  shows "sorted_wrt R (collect_results limit_option ms)"
  using assms by (simp add: collect_results_eq split: option.splits)

lemma set_collect_results:
  "set (collect_results limit_option ms) \<subseteq> path ` {m \<in> set ms. 0 < score m}"
proof -
  have "set (take k (map path (filter (\<lambda>m. 0 < score m) ms))) \<subseteq> path ` {m \<in> set ms. 0 < score m}" for k
    using set_take_subset [of k "map path (filter (\<lambda>m. 0 < score m) ms)"] by auto
  then show ?thesis
    by (auto simp: collect_results_eq split: option.splits)
qed

lemma sorted_paths_of_scored:
  assumes srt: "sorted_wrt (\<lambda>a b. cmp a b \<le> 0) ms'"
    and mem: "set ms' \<subseteq> range (scored sc self opts abbr0)"
  shows "sorted_wrt (\<lambda>p q. cmp (scored sc self opts abbr0 p) (scored sc self opts abbr0 q) \<le> 0)
           (map path (filter (\<lambda>m. 0 < score m) ms'))"
proof -
  have unpath: "scored sc self opts abbr0 (path m) = m" if "m \<in> set ms'" for m
    using that mem by auto
  from srt have "sorted_wrt (\<lambda>a b. cmp a b \<le> 0) (filter (\<lambda>m. 0 < score m) ms')"
    by (rule sorted_wrt_filter)
  then have "sorted_wrt (\<lambda>a b. cmp (scored sc self opts abbr0 (path a)) (scored sc self opts abbr0 (path b)) \<le> 0)
      (filter (\<lambda>m. 0 < score m) ms')"
    by (rule sorted_wrt_mono_rel [rotated]) (simp add: unpath)
  then show ?thesis by (simp add: sorted_wrt_map)
qed

section \<open>The trace of a call\<close>

lemma created_threads_append [simp]:
  "created_threads (xs @ ys) = created_threads xs @ created_threads ys"
  by (induction xs rule: created_threads.induct) simp_all

lemma created_threads_creates [simp]: "created_threads (map Thread_create ks) = ks"
  by (induction ks) simp_all

lemma created_threads_joins [simp]: "created_threads (map Thread_join ks) = []"
  by (induction ks) simp_all

lemma created_threads_calls [simp]:
  "created_threads (map (\<lambda>(k, i). Calculate_match k i) cs) = []"
  by (induction cs) auto

lemma scoring_calls_append [simp]:
  "scoring_calls (xs @ ys) = scoring_calls xs @ scoring_calls ys"
  by (induction xs rule: scoring_calls.induct) simp_all

lemma scoring_calls_creates [simp]: "scoring_calls (map Thread_create ks) = []"
  by (induction ks) simp_all

lemma scoring_calls_joins [simp]: "scoring_calls (map Thread_join ks) = []"
  by (induction ks) simp_all

lemma scoring_calls_calls [simp]:
  "scoring_calls (map (\<lambda>(k, i). Calculate_match k i) cs) = cs"
  by (induction cs) auto

lemma effective_thread_count_small:
  "n < 1000 \<Longrightarrow> effective_thread_count n t = 1"
  by (simp add: effective_thread_count_def THREAD_THRESHOLD_def)

lemma effective_thread_count_large:
  "1000 \<le> n \<Longrightarrow> effective_thread_count n t = (case t of None \<Rightarrow> 1 | Some x \<Rightarrow> sint x)"
  by (simp add: effective_thread_count_def THREAD_THRESHOLD_def)

lemma first_error_0 [simp]: "first_error err 0 = None"
  by (simp add: first_error_def)

lemma created_threads_sorted_matches_for:
  "created_threads (fst (sorted_matches_for qsort sc e self abbrev_arg opts)) =
     (case abbrev_arg of
        None \<Rightarrow> []
      | Some abbr0 \<Rightarrow>
          if \<not> malloc_matches e \<or> \<not> malloc_threads e \<or> \<not> malloc_thread_args e
             \<or> INT_MAX < effective_thread_count (length (iv_scanner self)) (opt_threads opts)
          then []
          else (case first_error (pthread_create_err e)
                  (nat (effective_thread_count (length (iv_scanner self)) (opt_threads opts)) - 1) of
                  Some k \<Rightarrow> [0..<k]
                | None \<Rightarrow>
                    [0..<nat (effective_thread_count (length (iv_scanner self)) (opt_threads opts)) - 1]))"
  by (simp add: sorted_matches_for_def Let_def split: option.splits)

lemma scoring_calls_sorted_matches_for:
  "set (scoring_calls (fst (sorted_matches_for qsort sc e self (Some abbr0) opts))) \<subseteq>
     set (calls (run_workers sc
       (make_thread_args (nat (effective_thread_count (length (iv_scanner self)) (opt_threads opts)))
          (opt_case_sensitive opts) (length (iv_scanner self)) (iv_scanner self)
          (normalize_abbrev opts abbr0) (iv_always_show_dot_files self)
          (iv_never_show_dot_files self) (opt_recurse opts))
       (nat (effective_thread_count (length (iv_scanner self)) (opt_threads opts))) (schedule e)
       (initial_workers
         (make_thread_args (nat (effective_thread_count (length (iv_scanner self)) (opt_threads opts)))
          (opt_case_sensitive opts) (length (iv_scanner self)) (iv_scanner self)
          (normalize_abbrev opts abbr0) (iv_always_show_dot_files self)
          (iv_never_show_dot_files self) (opt_recurse opts))
         (nat (effective_thread_count (length (iv_scanner self)) (opt_threads opts)))
         (length (iv_scanner self)))))"
  by (simp add: sorted_matches_for_def Let_def split: option.splits)

lemma alpha_ord_bytewise:
  assumes "\<And>c. c \<in> set p \<Longrightarrow> of_char c \<noteq> (0::nat)"
  shows "alpha_ord p q \<le> 0 \<longleftrightarrow> bytewise_le p q"
  using assms
proof (induction p q rule: alpha_ord.induct)
  case 1
  show ?case by simp
next
  case (2 y ys)
  show ?case by simp
next
  case (3 x xs)
  show ?case by simp
next
  case (4 x xs y ys)
  from 4(2) have x: "of_char x \<noteq> (0::nat)" and xs: "\<And>c. c \<in> set xs \<Longrightarrow> of_char c \<noteq> (0::nat)"
    by simp_all
  show ?case
  proof (cases "(of_char x :: nat) = of_char y")
    case True
    with x 4(1) xs show ?thesis by simp
  next
    case False
    then show ?thesis by simp
  qed
qed

lemma downcase_eq_dot: "downcase a = ''.'' \<longleftrightarrow> a = ''.''"
proof (cases a)
  case Nil
  then show ?thesis by (simp add: downcase_def)
next
  case (Cons c cs)
  have "of_char (char_of (of_char c + (32::nat))) = (of_char c + 32 :: nat)"
    if "(65::nat) \<le> of_char c" "of_char c \<le> (90::nat)"
    using that by simp
  then have "(if (65::nat) \<le> of_char c \<and> of_char c \<le> (90::nat)
        then char_of (of_char c + (32::nat)) else c) = CHR ''.'' \<longleftrightarrow> c = CHR ''.''"
    by (auto simp: of_char_eq_iff [where ?'a = nat, symmetric] simp del: of_char_eq_iff)
  with Cons show ?thesis by (auto simp: downcase_def)
qed

lemma normalize_abbrev_plain:
  assumes "\<not> opt_ignore_spaces opts"
  shows "normalize_abbrev opts a = [] \<longleftrightarrow> a = []"
    and "normalize_abbrev opts a = ''.'' \<longleftrightarrow> a = ''.''"
  using assms by (simp_all add: normalize_abbrev_def downcase_eq_dot) (simp_all add: downcase_def)

section \<open>Concrete calls\<close>

lemmas call_eval =
  env_ok_def example_env_def example_options_def example_matcher_def scenario_matcher_def
  effective_thread_count_def THREAD_THRESHOLD_def INT_MAX_def positive_worker_count_def
  normalize_abbrev_def downcase_def delete_spaces_def scored_def calculate_match_def
  sort_matches_def insertion_sort_def cmp_score_def cmp_alpha_def byte_at_def
  collect_results_def example_score_def empty_pattern_score_def dot_hidden_def

lemma scenario_call:
  "snd (sorted_matches_for insertion_sort example_score example_env scenario_matcher (Some ''fb'')
          (example_options\<lparr>opt_limit := None\<rparr>))
   = Inr [''fab'', ''foo/bar.txt'', ''foo/baz.txt'']"
  by (subst sorted_matches_for_returns) (simp_all add: call_eval)

lemma scenario_call_default:
  "snd (sorted_matches_for insertion_sort example_score example_env scenario_matcher (Some ''fb'')
          example_options)
   = Inr [''fab'', ''foo/bar.txt'', ''foo/baz.txt'']"
  by (subst sorted_matches_for_returns) (simp_all add: call_eval)

lemma empty_pattern_call:
  "snd (sorted_matches_for insertion_sort empty_pattern_score example_env example_matcher (Some [])
          example_options)
   = Inr [''lib'', ''src/main'']"
  by (subst sorted_matches_for_returns) (simp_all add: call_eval)

section \<open>Claims about the comparator and the argument checks\<close>

text \<open>
  C9, as the code has it. \<^verbatim>\<open>cmp_alpha\<close> returns 0 exactly when the two paths have the same
  length and the same bytes up to their first NUL byte; for paths without a NUL byte that
  is exactly when the paths are identical. The sign of \<^verbatim>\<open>cmp_alpha(a, b)\<close> is always the
  opposite of the sign of \<^verbatim>\<open>cmp_alpha(b, a)\<close>, and the order is transitive, so
  \<^verbatim>\<open>cmp_alpha\<close> is a total preorder whatever the bytes are.
\<close>

theorem cmp_alpha_total_preorder:
  "(cmp_alpha a b = 0 \<longleftrightarrow>
      length (path a) = length (path b) \<and> c_str (path a) = c_str (path b)) \<and>
   ((\<forall>c \<in> set (path a) \<union> set (path b). of_char c \<noteq> (0::nat)) \<longrightarrow>
      (cmp_alpha a b = 0 \<longleftrightarrow> path a = path b)) \<and>
   sgn (cmp_alpha a b) = - sgn (cmp_alpha b a) \<and>
   (cmp_alpha a b \<le> 0 \<and> cmp_alpha b c \<le> 0 \<longrightarrow> cmp_alpha a c \<le> 0)"
proof (intro conjI impI)
  show zero: "cmp_alpha a b = 0 \<longleftrightarrow>
      length (path a) = length (path b) \<and> c_str (path a) = c_str (path b)"
    by (simp add: cmp_alpha_alpha_ord alpha_ord_zero_iff)
  show "sgn (cmp_alpha a b) = - sgn (cmp_alpha b a)"
    by (simp add: cmp_alpha_alpha_ord alpha_ord_antisym [of "path b" "path a"])
  show "cmp_alpha a b = 0 \<longleftrightarrow> path a = path b"
    if "\<forall>c \<in> set (path a) \<union> set (path b). of_char c \<noteq> (0::nat)"
  proof -
    from that have "c_str (path a) = path a" "c_str (path b) = path b"
      by (simp_all add: c_str_nul_free)
    with zero show ?thesis by auto
  qed
  show "cmp_alpha a c \<le> 0" if "cmp_alpha a b \<le> 0 \<and> cmp_alpha b c \<le> 0"
    using that alpha_ord_trans [of "path a" "path b" "path c"]
    by (simp add: cmp_alpha_alpha_ord)
qed

theorem cmp_alpha_total_preorder_witness:
  "cmp_alpha \<lparr>path = ''ab'', score = 1\<rparr> \<lparr>path = ''abc'', score = 1\<rparr> \<noteq> 0 \<and>
   cmp_alpha \<lparr>path = ''ab'', score = 1\<rparr> \<lparr>path = ''abc'', score = 1\<rparr> \<le> 0 \<and>
   cmp_alpha \<lparr>path = ''abc'', score = 1\<rparr> \<lparr>path = ''b'', score = 1\<rparr> \<le> 0 \<and>
   cmp_alpha \<lparr>path = ''ab'', score = 1\<rparr> \<lparr>path = ''b'', score = 1\<rparr> \<le> 0 \<and>
   sgn (cmp_alpha \<lparr>path = ''ab'', score = 1\<rparr> \<lparr>path = ''abc'', score = 1\<rparr>) =
     - sgn (cmp_alpha \<lparr>path = ''abc'', score = 1\<rparr> \<lparr>path = ''ab'', score = 1\<rparr>)"
  using cmp_alpha_total_preorder [of "\<lparr>path = ''ab'', score = 1\<rparr>"
      "\<lparr>path = ''abc'', score = 1\<rparr>" "\<lparr>path = ''b'', score = 1\<rparr>"]
  by (simp add: cmp_alpha_def byte_at_def)

text \<open>
  C9, as stated, fails: two paths of the same length that share a NUL byte and differ
  after it compare as equal, because \<^verbatim>\<open>strncmp\<close> stops at the NUL byte.
\<close>

theorem cmp_alpha_nul_counterexample:
  "\<not> (cmp_alpha \<lparr>path = [CHR 0x00, CHR ''a''], score = 1\<rparr>
         \<lparr>path = [CHR 0x00, CHR ''b''], score = 1\<rparr> = 0 \<longleftrightarrow>
       length [CHR 0x00, CHR ''a''] = length [CHR 0x00, CHR ''b''] \<and>
       [CHR 0x00, CHR ''a''] = [CHR 0x00, CHR ''b''])"
  by (simp add: cmp_alpha_def byte_at_def)

text \<open>
  C8. A nil scanner makes the constructor raise \<^verbatim>\<open>ArgumentError\<close> and yields no matcher; a
  nil abbreviation makes the ranking call raise \<^verbatim>\<open>ArgumentError\<close> with an empty trace:
  the paths have not been fetched, nothing has been allocated, no thread has been created
  and no candidate has been scored, whatever the other arguments are.
\<close>

theorem nil_arguments_rejected:
  "initialize None init_opts = Inl ArgError \<and>
   sorted_matches_for qsort sc e self None opts = ([], Inl ArgError)"
  by (simp add: initialize_def sorted_matches_for_def)

section \<open>Claims about the workers\<close>

text \<open>
  C4. For every candidate list, every worker count \<open>T \<ge> 1\<close> and every order in which the
  workers take their turns: when the workers are done, slot \<open>i\<close> of \<^verbatim>\<open>matches\<close> holds the
  result of the scorer for candidate \<open>i\<close>; the scorer has been called exactly once for
  every index (the indices of the calls are a permutation of \<open>0, \<dots>, n - 1\<close>); and the
  calls are exactly the pairs of an index \<open>i\<close> and the worker \<open>i mod T\<close>, so that worker
  \<open>k\<close> handles \<open>k, k + T, k + 2T, \<dots>\<close> and no index is written by two workers.
\<close>

theorem striped_distribution:
  assumes "0 < T"
  shows "matches (run_workers sc (make_thread_args T cs (length ps) ps abbr al nv rc) T sched
             (initial_workers (make_thread_args T cs (length ps) ps abbr al nv rc) T (length ps)))
           = map (\<lambda>p. Some (calculate_match sc p abbr cs al nv rc)) ps \<and>
         mset (map snd (calls (run_workers sc (make_thread_args T cs (length ps) ps abbr al nv rc) T sched
             (initial_workers (make_thread_args T cs (length ps) ps abbr al nv rc) T (length ps)))))
           = mset [0..<length ps] \<and>
         set (calls (run_workers sc (make_thread_args T cs (length ps) ps abbr al nv rc) T sched
             (initial_workers (make_thread_args T cs (length ps) ps abbr al nv rc) T (length ps))))
           = (\<lambda>i. (i mod T, i)) ` {..<length ps}"
proof (intro conjI)
  show "matches (run_workers sc (make_thread_args T cs (length ps) ps abbr al nv rc) T sched
             (initial_workers (make_thread_args T cs (length ps) ps abbr al nv rc) T (length ps)))
           = map (\<lambda>p. Some (calculate_match sc p abbr cs al nv rc)) ps"
    using assms refl by (rule run_workers_matches)
  show "mset (map snd (calls (run_workers sc (make_thread_args T cs (length ps) ps abbr al nv rc) T sched
             (initial_workers (make_thread_args T cs (length ps) ps abbr al nv rc) T (length ps)))))
           = mset [0..<length ps]"
    using assms by (rule run_workers_calls(1))
  show "set (calls (run_workers sc (make_thread_args T cs (length ps) ps abbr al nv rc) T sched
             (initial_workers (make_thread_args T cs (length ps) ps abbr al nv rc) T (length ps))))
           = (\<lambda>i. (i mod T, i)) ` {..<length ps}"
    using assms by (rule run_workers_call_set)
qed

theorem striped_distribution_witness:
  "(0::nat) < 3 \<and>
   (matches (run_workers example_score
       (make_thread_args 3 False (length [''a'', ''b'', ''c'', ''fab'', ''e'', ''f'', ''g''])
          [''a'', ''b'', ''c'', ''fab'', ''e'', ''f'', ''g''] ''fb'' False False False)
       3 [2, 2, 0, 1, 1, 5, 0]
       (initial_workers
         (make_thread_args 3 False (length [''a'', ''b'', ''c'', ''fab'', ''e'', ''f'', ''g''])
            [''a'', ''b'', ''c'', ''fab'', ''e'', ''f'', ''g''] ''fb'' False False False)
         3 (length [''a'', ''b'', ''c'', ''fab'', ''e'', ''f'', ''g''])))
     = map (\<lambda>p. Some (calculate_match example_score p ''fb'' False False False False))
         [''a'', ''b'', ''c'', ''fab'', ''e'', ''f'', ''g''] \<and>
    mset (map snd (calls (run_workers example_score
       (make_thread_args 3 False (length [''a'', ''b'', ''c'', ''fab'', ''e'', ''f'', ''g''])
          [''a'', ''b'', ''c'', ''fab'', ''e'', ''f'', ''g''] ''fb'' False False False)
       3 [2, 2, 0, 1, 1, 5, 0]
       (initial_workers
         (make_thread_args 3 False (length [''a'', ''b'', ''c'', ''fab'', ''e'', ''f'', ''g''])
            [''a'', ''b'', ''c'', ''fab'', ''e'', ''f'', ''g''] ''fb'' False False False)
         3 (length [''a'', ''b'', ''c'', ''fab'', ''e'', ''f'', ''g''])))))
     = mset [0..<length [''a'', ''b'', ''c'', ''fab'', ''e'', ''f'', ''g'']] \<and>
    set (calls (run_workers example_score
       (make_thread_args 3 False (length [''a'', ''b'', ''c'', ''fab'', ''e'', ''f'', ''g''])
          [''a'', ''b'', ''c'', ''fab'', ''e'', ''f'', ''g''] ''fb'' False False False)
       3 [2, 2, 0, 1, 1, 5, 0]
       (initial_workers
         (make_thread_args 3 False (length [''a'', ''b'', ''c'', ''fab'', ''e'', ''f'', ''g''])
            [''a'', ''b'', ''c'', ''fab'', ''e'', ''f'', ''g''] ''fb'' False False False)
         3 (length [''a'', ''b'', ''c'', ''fab'', ''e'', ''f'', ''g'']))))
     = (\<lambda>i. (i mod 3, i)) ` {..<length [''a'', ''b'', ''c'', ''fab'', ''e'', ''f'', ''g'']}) \<and>
   calls (run_workers example_score
       (make_thread_args 3 False 7 [''a'', ''b'', ''c'', ''fab'', ''e'', ''f'', ''g''] ''fb'' False False False)
       3 [2, 2, 0, 1, 1, 5, 0]
       (initial_workers
         (make_thread_args 3 False 7 [''a'', ''b'', ''c'', ''fab'', ''e'', ''f'', ''g''] ''fb'' False False False) 3 7))
     = [(2, 2), (2, 5), (0, 0), (1, 1), (1, 4), (0, 3), (0, 6)]"
proof -
  have h: "(0::nat) < 3" by simp
  have ev: "calls (run_workers example_score
       (make_thread_args 3 False 7 [''a'', ''b'', ''c'', ''fab'', ''e'', ''f'', ''g''] ''fb'' False False False)
       3 [2, 2, 0, 1, 1, 5, 0]
       (initial_workers
         (make_thread_args 3 False 7 [''a'', ''b'', ''c'', ''fab'', ''e'', ''f'', ''g''] ''fb'' False False False) 3 7))
     = [(2, 2), (2, 5), (0, 0), (1, 1), (1, 4), (0, 3), (0, 6)]"
    by (subst example_run7) simp
  show ?thesis
    by (rule conjI [OF h conjI [OF striped_distribution [OF h] ev]])
qed

section \<open>Claims about the ranking call\<close>

text \<open>
  C1. Take two calls with the same matcher, abbreviation, options, scorer and \<^verbatim>\<open>qsort\<close>, in
  which every allocation and every thread call succeeds. Whatever the two requested worker
  counts are (absent, or positive and within \<^verbatim>\<open>int\<close>, as the interface asks), and in
  whatever order the workers take their turns in either call, both calls return, and they
  return the same array: the candidates' entries, sorted and collected, in which neither the
  worker count nor the schedule occurs.
\<close>

theorem worker_count_invariance:
  assumes "env_ok e1" and "env_ok e2"
    and "positive_worker_count t1" and "positive_worker_count t2"
  shows "snd (sorted_matches_for qsort sc e1 self (Some abbr0) (opts\<lparr>opt_threads := t1\<rparr>)) =
           Inr (collect_results (opt_limit opts)
                  (sort_matches qsort (opt_sort opts) (normalize_abbrev opts abbr0)
                     (map (scored sc self opts abbr0) (iv_scanner self)))) \<and>
         snd (sorted_matches_for qsort sc e2 self (Some abbr0) (opts\<lparr>opt_threads := t2\<rparr>)) =
           snd (sorted_matches_for qsort sc e1 self (Some abbr0) (opts\<lparr>opt_threads := t1\<rparr>))"
proof -
  have "snd (sorted_matches_for qsort sc e self (Some abbr0) (opts\<lparr>opt_threads := t\<rparr>)) =
           Inr (collect_results (opt_limit opts)
                  (sort_matches qsort (opt_sort opts) (normalize_abbrev opts abbr0)
                     (map (scored sc self opts abbr0) (iv_scanner self))))"
    if "env_ok e" "positive_worker_count t" for e t
    using that sorted_matches_for_returns [of e self "opts\<lparr>opt_threads := t\<rparr>" qsort sc abbr0]
    by (simp add: positive_worker_count_effective)
  with assms show ?thesis by simp
qed

theorem worker_count_invariance_witness:
  "env_ok (example_env\<lparr>schedule := [3, 0, 1, 1, 2, 0]\<rparr>) \<and> env_ok example_env \<and>
   positive_worker_count (Some 4) \<and> positive_worker_count (Some 2) \<and>
   snd (sorted_matches_for insertion_sort empty_pattern_score example_env large_matcher (Some [])
          (example_options\<lparr>opt_threads := Some 2\<rparr>)) =
   snd (sorted_matches_for insertion_sort empty_pattern_score
          (example_env\<lparr>schedule := [3, 0, 1, 1, 2, 0]\<rparr>) large_matcher (Some [])
          (example_options\<lparr>opt_threads := Some 4\<rparr>))"
proof -
  have h1: "env_ok (example_env\<lparr>schedule := [3, 0, 1, 1, 2, 0]\<rparr>)"
    by (simp add: env_ok_def example_env_def)
  have h2: "env_ok example_env"
    by (simp add: env_ok_def example_env_def)
  have h3: "positive_worker_count (Some 4)"
    by (simp add: positive_worker_count_def INT_MAX_def)
  have h4: "positive_worker_count (Some 2)"
    by (simp add: positive_worker_count_def INT_MAX_def)
  from worker_count_invariance [OF h1 h2 h3 h4, THEN conjunct2] h1 h2 h3 h4
  show ?thesis by blast
qed

text \<open>
  C5. For a limit \<open>L \<ge> 1\<close> the call ends as the call without a limit does, and where that
  returns an array, it returns the first \<open>L\<close> elements of that array; so the output is at
  most \<open>L\<close> long. A limit of 0 behaves as an absent one, and without a limit the output is
  every entry of the ranked array with a positive score, in order.
\<close>

theorem limit_enforcement:
  assumes "1 \<le> sint L"
  shows "snd (sorted_matches_for qsort sc e self abbrev_arg (opts\<lparr>opt_limit := Some L\<rparr>)) =
           map_sum id (take (nat (sint L)))
             (snd (sorted_matches_for qsort sc e self abbrev_arg (opts\<lparr>opt_limit := None\<rparr>))) \<and>
         (\<forall>out. snd (sorted_matches_for qsort sc e self abbrev_arg (opts\<lparr>opt_limit := Some L\<rparr>)) = Inr out
            \<longrightarrow> length out \<le> nat (sint L)) \<and>
         snd (sorted_matches_for qsort sc e self abbrev_arg (opts\<lparr>opt_limit := Some 0\<rparr>)) =
           snd (sorted_matches_for qsort sc e self abbrev_arg (opts\<lparr>opt_limit := None\<rparr>)) \<and>
         (\<forall>abbr0 out. snd (sorted_matches_for qsort sc e self (Some abbr0) (opts\<lparr>opt_limit := None\<rparr>)) = Inr out
            \<longrightarrow> out = map path (filter (\<lambda>m. 0 < score m)
                   (sort_matches qsort (opt_sort opts) (normalize_abbrev opts abbr0)
                      (map (scored sc self opts abbr0) (iv_scanner self)))))"
proof (intro conjI allI impI)
  from assms have L: "sint L \<noteq> 0" by simp
  show eq: "snd (sorted_matches_for qsort sc e self abbrev_arg (opts\<lparr>opt_limit := Some L\<rparr>)) =
           map_sum id (take (nat (sint L)))
             (snd (sorted_matches_for qsort sc e self abbrev_arg (opts\<lparr>opt_limit := None\<rparr>)))"
    using L by (simp add: snd_sorted_matches_for collect_results_eq split: option.splits)
  show "length out \<le> nat (sint L)"
    if "snd (sorted_matches_for qsort sc e self abbrev_arg (opts\<lparr>opt_limit := Some L\<rparr>)) = Inr out" for out
    using that unfolding eq
    by (cases "snd (sorted_matches_for qsort sc e self abbrev_arg (opts\<lparr>opt_limit := None\<rparr>))") auto
  show "snd (sorted_matches_for qsort sc e self abbrev_arg (opts\<lparr>opt_limit := Some 0\<rparr>)) =
           snd (sorted_matches_for qsort sc e self abbrev_arg (opts\<lparr>opt_limit := None\<rparr>))"
    by (simp add: snd_sorted_matches_for collect_results_eq split: option.splits)
  show "out = map path (filter (\<lambda>m. 0 < score m)
                   (sort_matches qsort (opt_sort opts) (normalize_abbrev opts abbr0)
                      (map (scored sc self opts abbr0) (iv_scanner self))))"
    if "snd (sorted_matches_for qsort sc e self (Some abbr0) (opts\<lparr>opt_limit := None\<rparr>)) = Inr out" for abbr0 out
    using that by (auto simp: snd_sorted_matches_for collect_results_eq split: if_splits)
qed

theorem limit_enforcement_witness:
  "1 \<le> sint (2 :: 64 word) \<and>
   snd (sorted_matches_for insertion_sort example_score example_env scenario_matcher (Some ''fb'')
          (example_options\<lparr>opt_limit := None\<rparr>))
     = Inr [''fab'', ''foo/bar.txt'', ''foo/baz.txt''] \<and>
   snd (sorted_matches_for insertion_sort example_score example_env scenario_matcher (Some ''fb'')
          (example_options\<lparr>opt_limit := Some 2\<rparr>))
     = Inr [''fab'', ''foo/bar.txt''] \<and>
   snd (sorted_matches_for insertion_sort example_score example_env scenario_matcher (Some ''fb'')
          (example_options\<lparr>opt_limit := Some 0\<rparr>))
     = Inr [''fab'', ''foo/bar.txt'', ''foo/baz.txt'']"
proof -
  have h: "1 \<le> sint (2 :: 64 word)" by simp
  from limit_enforcement [OF h, of insertion_sort example_score example_env scenario_matcher
      "Some ''fb''" example_options] h
  show ?thesis by (simp add: scenario_call)
qed

text \<open>
  C10. With a negative limit, a call that returns returns the empty array; and it does
  return when every allocation and thread call succeeds and the worker count is positive.
\<close>

theorem negative_limit_empty:
  assumes "sint L < 0"
  shows "(\<forall>out. snd (sorted_matches_for qsort sc e self abbrev_arg (opts\<lparr>opt_limit := Some L\<rparr>)) = Inr out
            \<longrightarrow> out = []) \<and>
         (env_ok e \<and> positive_worker_count (opt_threads opts) \<longrightarrow>
            snd (sorted_matches_for qsort sc e self (Some abbr0) (opts\<lparr>opt_limit := Some L\<rparr>)) = Inr [])"
proof (intro conjI allI impI)
  from assms have L: "sint L \<noteq> 0" "nat (sint L) = 0" by simp_all
  show "out = []"
    if "snd (sorted_matches_for qsort sc e self abbrev_arg (opts\<lparr>opt_limit := Some L\<rparr>)) = Inr out" for out
    using that L by (auto simp: snd_sorted_matches_for collect_results_eq split: option.splits if_splits)
  show "snd (sorted_matches_for qsort sc e self (Some abbr0) (opts\<lparr>opt_limit := Some L\<rparr>)) = Inr []"
    if "env_ok e \<and> positive_worker_count (opt_threads opts)"
    using that L sorted_matches_for_returns [of e self "opts\<lparr>opt_limit := Some L\<rparr>" qsort sc abbr0]
    by (simp add: positive_worker_count_effective collect_results_eq)
qed

theorem negative_limit_empty_witness:
  "sint (- 1 :: 64 word) < 0 \<and> env_ok example_env \<and>
   positive_worker_count (opt_threads example_options) \<and>
   snd (sorted_matches_for insertion_sort example_score example_env scenario_matcher (Some ''fb'')
          (example_options\<lparr>opt_limit := Some (- 1)\<rparr>)) = Inr []"
proof -
  have h: "sint (- 1 :: 64 word) < 0" by simp
  have ok: "env_ok example_env \<and> positive_worker_count (opt_threads example_options)"
    by (simp add: call_eval)
  from negative_limit_empty [OF h, of insertion_sort example_score example_env scenario_matcher
      "Some ''fb''" example_options "''fb''"] h ok
  show ?thesis by simp
qed

text \<open>
  C6. When \<^verbatim>\<open>qsort\<close> keeps its contract, every string in the array that a call returns is one
  of the candidates, and the score computed for it in this call is positive: a candidate
  whose score is zero or negative is never returned.
\<close>

theorem no_zero_score_in_output:
  assumes "qsort_contract qsort"
    and "snd (sorted_matches_for qsort sc e self (Some abbr0) opts) = Inr out"
    and "p \<in> set out"
  shows "p \<in> set (iv_scanner self) \<and> 0 < score (scored sc self opts abbr0 p)"
proof -
  let ?ms = "sort_matches qsort (opt_sort opts) (normalize_abbrev opts abbr0)
               (map (scored sc self opts abbr0) (iv_scanner self))"
  from assms(2) have "out = collect_results (opt_limit opts) ?ms"
    by (rule sorted_matches_for_InrD) simp
  with assms(3) set_collect_results [of "opt_limit opts" ?ms]
  obtain m where m: "m \<in> set ?ms" "0 < score m" "p = path m" by auto
  from m(1) assms(1) have "m \<in> set (map (scored sc self opts abbr0) (iv_scanner self))"
    by (simp only: set_sort_matches)
  then obtain p' where "p' \<in> set (iv_scanner self)" "m = scored sc self opts abbr0 p'" by auto
  with m show ?thesis by simp
qed

theorem no_zero_score_in_output_witness:
  "qsort_contract insertion_sort \<and>
   snd (sorted_matches_for insertion_sort empty_pattern_score example_env example_matcher (Some [])
          example_options) = Inr [''lib'', ''src/main''] \<and>
   ''lib'' \<in> set [''lib'', ''src/main''] \<and>
   ''lib'' \<in> set (iv_scanner example_matcher) \<and>
   0 < score (scored empty_pattern_score example_matcher example_options [] ''lib'')"
proof -
  have h: "''lib'' \<in> set [''lib'', ''src/main'']" by simp
  from no_zero_score_in_output [OF insertion_sort_contract empty_pattern_call h]
    insertion_sort_contract empty_pattern_call h
  show ?thesis by blast
qed

text \<open>
  C3, as the code has it. Let sorting be enabled (the option \<^verbatim>\<open>sort\<close> absent or true) and let
  the pattern, after the call has normalized it (case-folded unless case-sensitive, spaces
  deleted when \<^verbatim>\<open>ignore_spaces\<close> is set), be neither empty nor the single character \<^verbatim>\<open>.\<close>.
  When \<^verbatim>\<open>qsort\<close> keeps its contract, the scores of the returned candidates never increase
  along the output, and any two returned candidates with equal scores are in the order of
  \<^verbatim>\<open>cmp_alpha\<close>; for candidates without a NUL byte that is the byte-wise rule, with the
  shorter string first when it is a prefix of the other.
\<close>

theorem score_monotone:
  assumes "qsort_contract qsort"
    and "opt_sort opts = None \<or> opt_sort opts = Some True"
    and "normalize_abbrev opts abbr0 \<noteq> []" and "normalize_abbrev opts abbr0 \<noteq> ''.''"
    and "snd (sorted_matches_for qsort sc e self (Some abbr0) opts) = Inr out"
  shows "sorted_wrt (\<lambda>p q. score (scored sc self opts abbr0 q) \<le> score (scored sc self opts abbr0 p)) out \<and>
         sorted_wrt (\<lambda>p q. score (scored sc self opts abbr0 p) = score (scored sc self opts abbr0 q) \<longrightarrow>
                       cmp_alpha (scored sc self opts abbr0 p) (scored sc self opts abbr0 q) \<le> 0) out \<and>
         sorted_wrt (\<lambda>p q. score (scored sc self opts abbr0 p) = score (scored sc self opts abbr0 q) \<and>
                       (\<forall>c \<in> set p \<union> set q. of_char c \<noteq> (0::nat)) \<longrightarrow>
                       bytewise_le p q) out"
proof -
  let ?S = "scored sc self opts abbr0"
  let ?ms = "sort_matches qsort (opt_sort opts) (normalize_abbrev opts abbr0)
               (map ?S (iv_scanner self))"
  from assms(5) have out: "out = collect_results (opt_limit opts) ?ms"
    by (rule sorted_matches_for_InrD) simp
  from assms(1-4) have "sorted_wrt (\<lambda>a b. cmp_score a b \<le> 0) ?ms"
    by (rule sort_matches_by_score)
  moreover from assms(1) have "set ?ms \<subseteq> range ?S"
    by (auto simp only: set_sort_matches set_map)
  ultimately have "sorted_wrt (\<lambda>p q. cmp_score (?S p) (?S q) \<le> 0)
      (map path (filter (\<lambda>m. 0 < score m) ?ms))"
    by (rule sorted_paths_of_scored)
  then have srt: "sorted_wrt (\<lambda>p q. cmp_score (?S p) (?S q) \<le> 0) out"
    unfolding out by (rule sorted_wrt_collect_results)
  have "sorted_wrt (\<lambda>p q. score (?S q) \<le> score (?S p)) out"
    using srt by (rule sorted_wrt_mono_rel [rotated]) (simp add: cmp_score_def split: if_splits)
  moreover have ties: "sorted_wrt (\<lambda>p q. score (?S p) = score (?S q) \<longrightarrow> cmp_alpha (?S p) (?S q) \<le> 0) out"
    using srt by (rule sorted_wrt_mono_rel [rotated]) (simp add: cmp_score_def split: if_splits)
  moreover have "sorted_wrt (\<lambda>p q. score (?S p) = score (?S q) \<and>
                       (\<forall>c \<in> set p \<union> set q. of_char c \<noteq> (0::nat)) \<longrightarrow> bytewise_le p q) out"
    using ties
  proof (rule sorted_wrt_mono_rel [rotated])
    fix p q
    assume le: "score (?S p) = score (?S q) \<longrightarrow> cmp_alpha (?S p) (?S q) \<le> 0"
    show "score (?S p) = score (?S q) \<and> (\<forall>c \<in> set p \<union> set q. of_char c \<noteq> (0::nat)) \<longrightarrow>
        bytewise_le p q"
    proof
      assume a: "score (?S p) = score (?S q) \<and> (\<forall>c \<in> set p \<union> set q. of_char c \<noteq> (0::nat))"
      with le have "alpha_ord p q \<le> 0" by (simp add: cmp_alpha_alpha_ord)
      moreover from a have "\<And>c. c \<in> set p \<Longrightarrow> of_char c \<noteq> (0::nat)" by simp
      ultimately show "bytewise_le p q" by (simp add: alpha_ord_bytewise)
    qed
  qed
  ultimately show ?thesis by simp
qed

theorem score_monotone_witness:
  "qsort_contract insertion_sort \<and>
   (opt_sort example_options = None \<or> opt_sort example_options = Some True) \<and>
   normalize_abbrev example_options ''fb'' \<noteq> [] \<and>
   normalize_abbrev example_options ''fb'' \<noteq> ''.'' \<and>
   snd (sorted_matches_for insertion_sort example_score example_env scenario_matcher (Some ''fb'')
          example_options) = Inr [''fab'', ''foo/bar.txt'', ''foo/baz.txt''] \<and>
   sorted_wrt (\<lambda>p q. score (scored example_score scenario_matcher example_options ''fb'' q)
                    \<le> score (scored example_score scenario_matcher example_options ''fb'' p))
     [''fab'', ''foo/bar.txt'', ''foo/baz.txt''] \<and>
   sorted_wrt (\<lambda>p q. score (scored example_score scenario_matcher example_options ''fb'' p)
                      = score (scored example_score scenario_matcher example_options ''fb'' q) \<longrightarrow>
                    cmp_alpha (scored example_score scenario_matcher example_options ''fb'' p)
                      (scored example_score scenario_matcher example_options ''fb'' q) \<le> 0)
     [''fab'', ''foo/bar.txt'', ''foo/baz.txt''] \<and>
   sorted_wrt (\<lambda>p q. score (scored example_score scenario_matcher example_options ''fb'' p)
                      = score (scored example_score scenario_matcher example_options ''fb'' q) \<and>
                    (\<forall>c \<in> set p \<union> set q. of_char c \<noteq> (0::nat)) \<longrightarrow>
                    bytewise_le p q)
     [''fab'', ''foo/bar.txt'', ''foo/baz.txt''] \<and>
   score (scored example_score scenario_matcher example_options ''fb'' ''foo/bar.txt'')
     = score (scored example_score scenario_matcher example_options ''fb'' ''foo/baz.txt'') \<and>
   bytewise_le ''foo/bar.txt'' ''foo/baz.txt''"
proof -
  have h2: "opt_sort example_options = None \<or> opt_sort example_options = Some True"
    by (simp add: example_options_def)
  have h3: "normalize_abbrev example_options ''fb'' \<noteq> []"
    by (simp add: example_options_def normalize_abbrev_def downcase_def)
  have h4: "normalize_abbrev example_options ''fb'' \<noteq> ''.''"
    by (simp add: example_options_def normalize_abbrev_def downcase_def)
  have tie: "score (scored example_score scenario_matcher example_options ''fb'' ''foo/bar.txt'')
     = score (scored example_score scenario_matcher example_options ''fb'' ''foo/baz.txt'')"
    by (simp add: scored_def calculate_match_def example_score_def)
  have bw: "bytewise_le ''foo/bar.txt'' ''foo/baz.txt''"
    by simp
  from score_monotone [OF insertion_sort_contract h2 h3 h4 scenario_call_default]
    insertion_sort_contract h2 h3 h4 scenario_call_default tie bw
  show ?thesis by blast
qed

text \<open>
  C3, as stated, fails in two ways. The pattern \<^verbatim>\<open>" ."\<close> is not empty and is not the single
  character \<^verbatim>\<open>.\<close>, but with \<^verbatim>\<open>ignore_spaces\<close> the call normalizes it to \<^verbatim>\<open>.\<close> and sorts
  alphabetically: the output \<^verbatim>\<open>aa.b\<close>, \<^verbatim>\<open>b.\<close> has increasing scores. And two candidates
  with equal scores that share a NUL byte and differ after it compare as equal, so they
  are returned in the order in which insertion sort, as a stable \<^verbatim>\<open>qsort\<close> does, leaves them,
  against the byte-wise rule.
\<close>

theorem score_monotone_counterexample:
  "snd (sorted_matches_for insertion_sort short_first_score example_env dot_matcher (Some '' .'')
          (example_options\<lparr>opt_ignore_spaces := True\<rparr>)) = Inr [''aa.b'', ''b.''] \<and>
   score (scored short_first_score dot_matcher (example_options\<lparr>opt_ignore_spaces := True\<rparr>)
            '' .'' ''aa.b'')
     < score (scored short_first_score dot_matcher (example_options\<lparr>opt_ignore_spaces := True\<rparr>)
            '' .'' ''b.'') \<and>
   snd (sorted_matches_for insertion_sort short_first_score example_env nul_matcher (Some ''x'')
          example_options)
     = Inr [[CHR ''x'', CHR 0x00, CHR ''b''], [CHR ''x'', CHR 0x00, CHR ''a'']] \<and>
   score (scored short_first_score nul_matcher example_options ''x'' [CHR ''x'', CHR 0x00, CHR ''b''])
     = score (scored short_first_score nul_matcher example_options ''x'' [CHR ''x'', CHR 0x00, CHR ''a'']) \<and>
   \<not> bytewise_le [CHR ''x'', CHR 0x00, CHR ''b''] [CHR ''x'', CHR 0x00, CHR ''a'']"
proof (intro conjI)
  show "snd (sorted_matches_for insertion_sort short_first_score example_env dot_matcher (Some '' .'')
          (example_options\<lparr>opt_ignore_spaces := True\<rparr>)) = Inr [''aa.b'', ''b.'']"
    by (subst sorted_matches_for_returns)
      (simp_all add: call_eval dot_matcher_def short_first_score_def)
  show "score (scored short_first_score dot_matcher (example_options\<lparr>opt_ignore_spaces := True\<rparr>)
            '' .'' ''aa.b'')
     < score (scored short_first_score dot_matcher (example_options\<lparr>opt_ignore_spaces := True\<rparr>)
            '' .'' ''b.'')"
    by (simp add: scored_def calculate_match_def short_first_score_def)
  show "snd (sorted_matches_for insertion_sort short_first_score example_env nul_matcher (Some ''x'')
          example_options)
     = Inr [[CHR ''x'', CHR 0x00, CHR ''b''], [CHR ''x'', CHR 0x00, CHR ''a'']]"
    by (subst sorted_matches_for_returns)
      (simp_all add: call_eval nul_matcher_def short_first_score_def)
  show "score (scored short_first_score nul_matcher example_options ''x'' [CHR ''x'', CHR 0x00, CHR ''b''])
     = score (scored short_first_score nul_matcher example_options ''x'' [CHR ''x'', CHR 0x00, CHR ''a''])"
    by (simp add: scored_def calculate_match_def short_first_score_def)
  show "\<not> bytewise_le [CHR ''x'', CHR 0x00, CHR ''b''] [CHR ''x'', CHR 0x00, CHR ''a'']"
    by simp
qed




text \<open>
  C7. With fewer than 1000 candidates the worker count is 1 whatever count is requested: the
  call returns what it returns for a requested count of 1, creates no thread, and every
  call of the scorer is made by worker 0. With 1000 candidates or more the worker count is
  the requested one (1 when none is requested), and a call in which every allocation and
  thread call succeeds creates one thread for each worker but the last, which runs on the
  calling thread.
\<close>

theorem small_input_single_worker:
  "(length (iv_scanner self) < 1000 \<longrightarrow>
      effective_thread_count (length (iv_scanner self)) t = 1 \<and>
      snd (sorted_matches_for qsort sc e self abbrev_arg (opts\<lparr>opt_threads := t\<rparr>)) =
        snd (sorted_matches_for qsort sc e self abbrev_arg (opts\<lparr>opt_threads := Some 1\<rparr>)) \<and>
      created_threads (fst (sorted_matches_for qsort sc e self abbrev_arg (opts\<lparr>opt_threads := t\<rparr>))) = [] \<and>
      fst ` set (scoring_calls
         (fst (sorted_matches_for qsort sc e self abbrev_arg (opts\<lparr>opt_threads := t\<rparr>)))) \<subseteq> {0}) \<and>
   (1000 \<le> length (iv_scanner self) \<longrightarrow>
      effective_thread_count (length (iv_scanner self)) t = (case t of None \<Rightarrow> 1 | Some x \<Rightarrow> sint x) \<and>
      (env_ok e \<and> positive_worker_count t \<longrightarrow>
         created_threads (fst (sorted_matches_for qsort sc e self (Some abbr0) (opts\<lparr>opt_threads := t\<rparr>)))
           = [0..<nat (case t of None \<Rightarrow> 1 | Some x \<Rightarrow> sint x) - 1]))"
proof (intro conjI impI)
  assume small: "length (iv_scanner self) < 1000"
  then show eff: "effective_thread_count (length (iv_scanner self)) t = 1"
    by (rule effective_thread_count_small)
  from small have "effective_thread_count (length (iv_scanner self)) (Some 1) = 1"
    by (rule effective_thread_count_small)
  with eff show "snd (sorted_matches_for qsort sc e self abbrev_arg (opts\<lparr>opt_threads := t\<rparr>)) =
        snd (sorted_matches_for qsort sc e self abbrev_arg (opts\<lparr>opt_threads := Some 1\<rparr>))"
    by (simp add: snd_sorted_matches_for split: option.splits)
  from eff show "created_threads (fst (sorted_matches_for qsort sc e self abbrev_arg (opts\<lparr>opt_threads := t\<rparr>))) = []"
    by (simp add: created_threads_sorted_matches_for split: option.splits)
  show "fst ` set (scoring_calls
         (fst (sorted_matches_for qsort sc e self abbrev_arg (opts\<lparr>opt_threads := t\<rparr>)))) \<subseteq> {0}"
  proof (cases abbrev_arg)
    case None
    then show ?thesis by (simp add: sorted_matches_for_def)
  next
    case (Some abbr0)
    define W where "W = run_workers sc
       (make_thread_args 1 (opt_case_sensitive opts) (length (iv_scanner self)) (iv_scanner self)
          (normalize_abbrev opts abbr0) (iv_always_show_dot_files self)
          (iv_never_show_dot_files self) (opt_recurse opts))
       1 (schedule e)
       (initial_workers
         (make_thread_args 1 (opt_case_sensitive opts) (length (iv_scanner self)) (iv_scanner self)
          (normalize_abbrev opts abbr0) (iv_always_show_dot_files self)
          (iv_never_show_dot_files self) (opt_recurse opts))
         1 (length (iv_scanner self)))"
    have own: "\<forall>(k, i)\<in>set (calls W). k < 1 \<and> i mod 1 = k"
      unfolding W_def by (rule run_workers_calls(2)) simp
    have sub: "set (scoring_calls (fst (sorted_matches_for qsort sc e self (Some abbr0)
        (opts\<lparr>opt_threads := t\<rparr>)))) \<subseteq> set (calls W)"
      using scoring_calls_sorted_matches_for [of qsort sc e self abbr0 "opts\<lparr>opt_threads := t\<rparr>"] eff
      by (simp add: W_def)
    show ?thesis
    proof
      fix k assume "k \<in> fst ` set (scoring_calls
         (fst (sorted_matches_for qsort sc e self abbrev_arg (opts\<lparr>opt_threads := t\<rparr>))))"
      then obtain i where "(k, i) \<in> set (scoring_calls
         (fst (sorted_matches_for qsort sc e self (Some abbr0) (opts\<lparr>opt_threads := t\<rparr>))))"
        using Some by auto
      with sub have "(k, i) \<in> set (calls W)" by blast
      with own have "k < 1" by blast
      then show "k \<in> {0}" by simp
    qed
  qed
next
  assume large: "1000 \<le> length (iv_scanner self)"
  then show eff: "effective_thread_count (length (iv_scanner self)) t = (case t of None \<Rightarrow> 1 | Some x \<Rightarrow> sint x)"
    by (rule effective_thread_count_large)
  assume ok: "env_ok e \<and> positive_worker_count t"
  then have "effective_thread_count (length (iv_scanner self)) t \<le> INT_MAX"
    by (simp add: positive_worker_count_effective)
  with ok eff show "created_threads (fst (sorted_matches_for qsort sc e self (Some abbr0) (opts\<lparr>opt_threads := t\<rparr>)))
           = [0..<nat (case t of None \<Rightarrow> 1 | Some x \<Rightarrow> sint x) - 1]"
    by (simp add: created_threads_sorted_matches_for env_ok_no_error env_ok_def)
qed

theorem small_input_single_worker_witness:
  "length (iv_scanner example_matcher) < 1000 \<and>
   effective_thread_count (length (iv_scanner example_matcher)) (Some 8) = 1 \<and>
   created_threads (fst (sorted_matches_for insertion_sort empty_pattern_score example_env
      example_matcher (Some []) (example_options\<lparr>opt_threads := Some 8\<rparr>))) = [] \<and>
   1000 \<le> length (iv_scanner large_matcher) \<and>
   env_ok example_env \<and> positive_worker_count (Some 4) \<and>
   effective_thread_count (length (iv_scanner large_matcher)) (Some 4) = 4 \<and>
   created_threads (fst (sorted_matches_for insertion_sort empty_pattern_score example_env
      large_matcher (Some []) (example_options\<lparr>opt_threads := Some 4\<rparr>))) = [0..<3]"
proof -
  have s: "length (iv_scanner example_matcher) < 1000"
    by (simp add: example_matcher_def)
  have l: "1000 \<le> length (iv_scanner large_matcher)"
    by (simp add: large_matcher_def)
  have ok: "env_ok example_env \<and> positive_worker_count (Some 4)"
    by (simp add: env_ok_def example_env_def positive_worker_count_def INT_MAX_def)
  note small = small_input_single_worker [where self = example_matcher and t = "Some 8"
      and qsort = insertion_sort and sc = empty_pattern_score and e = example_env
      and abbrev_arg = "Some []" and opts = example_options, THEN conjunct1, rule_format, OF s]
  note large = small_input_single_worker [of large_matcher "Some 4" insertion_sort
      empty_pattern_score example_env _ example_options "[]", THEN conjunct2, rule_format, OF l]
  from large have eff: "effective_thread_count (length (iv_scanner large_matcher)) (Some 4) = 4"
    by simp
  from large ok have "created_threads (fst (sorted_matches_for insertion_sort empty_pattern_score
      example_env large_matcher (Some []) (example_options\<lparr>opt_threads := Some 4\<rparr>))) = [0..<3]"
    by simp
  with small s l ok eff show ?thesis by blast
qed

end
